theory Spec2Isabelle
  imports Complex_Main "HOL-Library.Word"
begin

section \<open>JavaScript strings\<close>

text \<open>
  A JavaScript string is a sequence of UTF-16 code units. The regular expressions of
  \<^verbatim>\<open>utils.ts\<close> carry no \<^verbatim>\<open>u\<close> flag, so they work on code units, and
  the bullet \<^verbatim>\<open>U+2022\<close> and the danda \<^verbatim>\<open>U+0964\<close> are one unit each.
  A string is modelled as the list of its code units, each a natural number.
\<close>

type_synonym jsstring = "nat list"

definition js :: "string \<Rightarrow> jsstring" where
  "js s = map of_char s"

text \<open>The class \<^verbatim>\<open>\s\<close>: WhiteSpace and LineTerminator of ECMAScript.
  \<^verbatim>\<open>String.prototype.trim\<close> strips the same set.\<close>

definition is_line_terminator :: "nat \<Rightarrow> bool" where
  "is_line_terminator c \<longleftrightarrow> c = 0x0A \<or> c = 0x0D \<or> c = 0x2028 \<or> c = 0x2029"

definition is_ws :: "nat \<Rightarrow> bool" where
  "is_ws c \<longleftrightarrow>
     c = 0x09 \<or> c = 0x0B \<or> c = 0x0C \<or> c = 0x20 \<or> c = 0xA0 \<or> c = 0x1680
     \<or> (0x2000 \<le> c \<and> c \<le> 0x200A) \<or> c = 0x202F \<or> c = 0x205F \<or> c = 0x3000
     \<or> c = 0xFEFF \<or> is_line_terminator c"

text \<open>\<^verbatim>\<open>s.trim()\<close>\<close>

definition trim :: "jsstring \<Rightarrow> jsstring" where
  "trim s = rev (dropWhile is_ws (rev (dropWhile is_ws s)))"

section \<open>cleanTextForTTS\<close>

text \<open>\<^verbatim>\<open>.replace(/[#*`~_]/g, '')\<close>\<close>

definition is_markdown_symbol :: "nat \<Rightarrow> bool" where
  "is_markdown_symbol c \<longleftrightarrow> c = 0x23 \<or> c = 0x2A \<or> c = 0x60 \<or> c = 0x7E \<or> c = 0x5F"

definition strip_markdown_symbols :: "jsstring \<Rightarrow> jsstring" where
  "strip_markdown_symbols s = filter (\<lambda>c. \<not> is_markdown_symbol c) s"

text \<open>
  \<^verbatim>\<open>.replace(/\[.*?\]\(.*?\)/g, '')\<close>. The dot matches every code unit but a line
  terminator, and both stars are lazy, so the backtracking matcher tries the rest of the
  pattern first and lets the dot eat one more unit only when that fails.

  \<open>close_paren s\<close> matches \<^verbatim>\<open>.*?\)\<close> at the head of \<open>s\<close> and gives the
  number of units matched; \<open>bracket_tail s\<close> does the same for
  \<^verbatim>\<open>.*?\]\(.*?\)\<close>.
\<close>

fun close_paren :: "jsstring \<Rightarrow> nat option" where
  "close_paren [] = None"
| "close_paren (c # cs) =
     (if c = 0x29 then Some 1
      else if is_line_terminator c then None
      else map_option Suc (close_paren cs))"

fun bracket_tail :: "jsstring \<Rightarrow> nat option" where
  "bracket_tail [] = None"
| "bracket_tail (c # cs) =
     (case (if c = 0x5D \<and> cs \<noteq> [] \<and> hd cs = 0x28 then close_paren (tl cs) else None) of
        Some n \<Rightarrow> Some (n + 2)
      | None \<Rightarrow> if is_line_terminator c then None else map_option Suc (bracket_tail cs))"

text \<open>
  The global replace scans from the left. \<open>strip_links_from k s\<close> still has \<open>k\<close>
  units of the current match to skip (the regular expression's \<^verbatim>\<open>lastIndex\<close> lies
  \<open>k\<close> units ahead); with \<open>k = 0\<close> it tries a match at the head of \<open>s\<close>.
\<close>

fun strip_links_from :: "nat \<Rightarrow> jsstring \<Rightarrow> jsstring" where
  "strip_links_from k [] = []"
| "strip_links_from (Suc k) (c # cs) = strip_links_from k cs"
| "strip_links_from 0 (c # cs) =
     (if c = 0x5B then
        (case bracket_tail cs of
           Some n \<Rightarrow> strip_links_from n cs
         | None \<Rightarrow> c # strip_links_from 0 cs)
      else c # strip_links_from 0 cs)"

definition strip_markdown_links :: "jsstring \<Rightarrow> jsstring" where
  "strip_markdown_links s = strip_links_from 0 s"

text \<open>\<^verbatim>\<open>.replace(/\n{2,}/g, '. ')\<close>: a greedy run of two or more line feeds.\<close>

function (sequential) replace_multiple_newlines :: "jsstring \<Rightarrow> jsstring" where
  "replace_multiple_newlines (c # d # cs) =
     (if c = 0x0A \<and> d = 0x0A
      then 0x2E # 0x20 # replace_multiple_newlines (dropWhile (\<lambda>x. x = 0x0A) cs)
      else c # replace_multiple_newlines (d # cs))"
| "replace_multiple_newlines cs = cs"
  by pat_completeness auto
termination
  by (relation "measure length") (auto simp: less_Suc_eq_le intro: le_trans [OF length_dropWhile_le])

text \<open>\<^verbatim>\<open>.replace(/[-\<bullet>*+]\s+/g, ', ')\<close>, the bullet being U+2022.\<close>

definition is_bullet :: "nat \<Rightarrow> bool" where
  "is_bullet c \<longleftrightarrow> c = 0x2D \<or> c = 0x2022 \<or> c = 0x2A \<or> c = 0x2B"

function (sequential) replace_bullet_points :: "jsstring \<Rightarrow> jsstring" where
  "replace_bullet_points (c # d # cs) =
     (if is_bullet c \<and> is_ws d
      then 0x2C # 0x20 # replace_bullet_points (dropWhile is_ws cs)
      else c # replace_bullet_points (d # cs))"
| "replace_bullet_points cs = cs"
  by pat_completeness auto
termination
  by (relation "measure length") (auto simp: less_Suc_eq_le intro: le_trans [OF length_dropWhile_le])

text \<open>\<^verbatim>\<open>.replace(/\s+/g, ' ')\<close>\<close>

function normalize_whitespace :: "jsstring \<Rightarrow> jsstring" where
  "normalize_whitespace [] = []"
| "normalize_whitespace (c # cs) =
     (if is_ws c then 0x20 # normalize_whitespace (dropWhile is_ws cs)
      else c # normalize_whitespace cs)"
  by pat_completeness auto
termination
  by (relation "measure length") (auto simp: less_Suc_eq_le intro: le_trans [OF length_dropWhile_le])

definition cleanTextForTTS :: "jsstring \<Rightarrow> jsstring" where
  "cleanTextForTTS text =
     trim (normalize_whitespace (replace_bullet_points (replace_multiple_newlines
       (strip_markdown_links (strip_markdown_symbols text)))))"

section \<open>splitIntoSentences\<close>

text \<open>
  \<^verbatim>\<open>text.split(/(?<=[.!?\<dots>])\s+/)\<close>, the class holding the full stop, the
  exclamation mark, the question mark and the danda U+0964. The separator matches at a
  position whose previous unit is a terminator and whose next units are white space, of
  which it takes the longest run. \<open>split_go t cur s\<close> follows the split algorithm:
  \<open>cur\<close> is the piece read so far, \<open>t\<close> says that the unit before the head of
  \<open>s\<close> is a terminator. A separator is never empty, so every match closes a piece.
\<close>

definition is_terminator :: "nat \<Rightarrow> bool" where
  "is_terminator c \<longleftrightarrow> c = 0x2E \<or> c = 0x21 \<or> c = 0x3F \<or> c = 0x0964"

function split_go :: "bool \<Rightarrow> jsstring \<Rightarrow> jsstring \<Rightarrow> jsstring list" where
  "split_go t cur [] = [cur]"
| "split_go t cur (c # cs) =
     (if t \<and> is_ws c then cur # split_go False [] (dropWhile is_ws cs)
      else split_go (is_terminator c) (cur @ [c]) cs)"
  by pat_completeness auto
termination
  by (relation "measure (\<lambda>(t, cur, s). length s)")
    (auto simp: less_Suc_eq_le intro: le_trans [OF length_dropWhile_le])

definition splitIntoSentences :: "jsstring \<Rightarrow> jsstring list" where
  "splitIntoSentences text =
     filter (\<lambda>s. length (trim s) > 0) (split_go False [] text)"

section \<open>Shapes of normalized text\<close>

text \<open>
  Two predicates used to describe the output of \<open>cleanTextForTTS\<close>: a bullet
  character directly followed by white space (what the bullet replacement looks for), and
  white space that is already normal (every white-space unit is U+0020 and no two are
  adjacent).
\<close>

fun bullet_before_ws :: "jsstring \<Rightarrow> bool" where
  "bullet_before_ws (c # d # cs) \<longleftrightarrow> (is_bullet c \<and> is_ws d) \<or> bullet_before_ws (d # cs)"
| "bullet_before_ws cs \<longleftrightarrow> False"

fun ws_normal :: "jsstring \<Rightarrow> bool" where
  "ws_normal [] \<longleftrightarrow> True"
| "ws_normal (c # cs) \<longleftrightarrow>
     (if is_ws c then c = 0x20 \<and> (cs = [] \<or> \<not> is_ws (hd cs)) \<and> ws_normal cs
      else ws_normal cs)"

section \<open>Errors\<close>

text \<open>
  A thrown JavaScript value, as far as the code looks at it: \<^verbatim>\<open>error.message\<close> and
  \<^verbatim>\<open>error.status\<close>. \<open>None\<close> is a field that is absent (or, for the status, not
  a number). An exception is the \<open>Inl\<close> of a sum; \<open>then_do\<close> runs the next statement
  only when the previous one did not throw.
\<close>

record js_error =
  message :: "jsstring option"
  status :: "int option"

definition Error :: "string \<Rightarrow> js_error" where
  "Error msg = \<lparr>message = Some (js msg), status = None\<rparr>"

definition then_do :: "js_error + 'a \<Rightarrow> ('a \<Rightarrow> js_error + 'b) \<Rightarrow> js_error + 'b" where
  "then_do r f = (case r of Inl e \<Rightarrow> Inl e | Inr v \<Rightarrow> f v)"

text \<open>\<^verbatim>\<open>s.includes(sub)\<close>\<close>

fun string_includes :: "jsstring \<Rightarrow> jsstring \<Rightarrow> bool" where
  "string_includes [] sub \<longleftrightarrow> sub = []"
| "string_includes (c # cs) sub \<longleftrightarrow> take (length sub) (c # cs) = sub \<or> string_includes cs sub"

section \<open>decodeBase64\<close>

text \<open>
  \<^verbatim>\<open>atob\<close> is the browser's; it is a parameter of the model, giving the binary
  string or the exception it throws. \<open>decodeBase64\<close> copies the code units into a
  \<^verbatim>\<open>Uint8Array\<close>, which keeps each modulo 256. Bytes are natural numbers below 256.
\<close>

type_synonym bytes = "nat list"

definition decodeBase64 :: "(jsstring \<Rightarrow> js_error + jsstring) \<Rightarrow> jsstring \<Rightarrow> js_error + bytes" where
  "decodeBase64 atob base64 =
     then_do (atob base64) (\<lambda>binaryString. Inr (map (\<lambda>c. c mod 256) binaryString))"

text \<open>
  A decoder for \<^verbatim>\<open>atob\<close> after the forgiving-base64 decoding of the HTML standard:
  ASCII white space is dropped, up to two closing \<^verbatim>\<open>=\<close> are dropped when the length
  is a multiple of four, a length of 1 modulo 4 or a unit outside the alphabet is an
  \<^verbatim>\<open>InvalidCharacterError\<close>, and the sextets are regrouped into bytes.
\<close>

definition base64_value :: "nat \<Rightarrow> nat option" where
  "base64_value c =
     (if 0x41 \<le> c \<and> c \<le> 0x5A then Some (c - 0x41)
      else if 0x61 \<le> c \<and> c \<le> 0x7A then Some (c - 0x61 + 26)
      else if 0x30 \<le> c \<and> c \<le> 0x39 then Some (c - 0x30 + 52)
      else if c = 0x2B then Some 62
      else if c = 0x2F then Some 63
      else None)"

fun base64_groups :: "nat list \<Rightarrow> nat list" where
  "base64_groups (a # b # c # d # rest) =
     (a * 4 + b div 16) # ((b mod 16) * 16 + c div 4) # ((c mod 4) * 64 + d) # base64_groups rest"
| "base64_groups [a, b, c] = [a * 4 + b div 16, (b mod 16) * 16 + c div 4]"
| "base64_groups [a, b] = [a * 4 + b div 16]"
| "base64_groups rest = []"

definition strip_padding :: "jsstring \<Rightarrow> jsstring" where
  "strip_padding s =
     (if length s mod 4 = 0 \<and> s \<noteq> [] \<and> last s = 0x3D
      then (if butlast s \<noteq> [] \<and> last (butlast s) = 0x3D then butlast (butlast s) else butlast s)
      else s)"

definition atob_html :: "jsstring \<Rightarrow> js_error + jsstring" where
  "atob_html s =
     (let t = strip_padding (filter (\<lambda>c. c \<notin> {0x09, 0x0A, 0x0C, 0x0D, 0x20}) s)
      in if length t mod 4 = 1 \<or> (\<exists>c\<in>set t. base64_value c = None)
         then Inl (Error ''The string to be decoded is not correctly encoded.'')
         else Inr (base64_groups (map (\<lambda>c. the (base64_value c)) t)))"

section \<open>generateTTS\<close>

text \<open>
  \<^verbatim>\<open>new Int16Array(uint8.buffer)\<close> throws a \<^verbatim>\<open>RangeError\<close> when the byte length
  is odd (the message is V8's); otherwise element \<open>i\<close> is the two bytes at \<open>2 i\<close>
  read in platform order, little-endian, as a two's complement number.
\<close>

definition int16_le :: "nat \<Rightarrow> nat \<Rightarrow> int" where
  "int16_le lo hi =
     (let u = int lo + 256 * int hi in if u < 32768 then u else u - 65536)"

fun int16_pairs :: "bytes \<Rightarrow> int list" where
  "int16_pairs (lo # hi # rest) = int16_le lo hi # int16_pairs rest"
| "int16_pairs rest = []"

definition Int16Array :: "bytes \<Rightarrow> js_error + int list" where
  "Int16Array buffer =
     (if odd (length buffer)
      then Inl (Error ''byte length of Int16Array should be a multiple of 2'')
      else Inr (int16_pairs buffer))"

datatype AudioMode = STUDY | STORY

record tts_request =
  model :: jsstring
  contents :: jsstring
  voiceName :: jsstring

text \<open>
  What one call of \<^verbatim>\<open>ai.models.generateContent\<close> settles to: a rejection with the
  value thrown, or a response, of which the code reads only
  \<^verbatim>\<open>candidates?.[0]?.content?.parts?.[0]?.inlineData?.data\<close> (\<open>None\<close> when the
  chain gives \<^verbatim>\<open>undefined\<close>).
\<close>

datatype response = Rejected js_error | Resolved "jsstring option"

definition systemPrompt :: "AudioMode \<Rightarrow> jsstring" where
  "systemPrompt mode =
     (if mode = STUDY
      then js ''Read the following text naturally. Prioritize correct Bangla pronunciation. Calm, intelligent teacher tone. Steady voice, minimal emotion.''
      else js ''Read like a warm storyteller. Use soft emotional tone. Add natural pauses. Blend English words gently. Expressive but not dramatic.'')"

definition voice_of :: "AudioMode \<Rightarrow> jsstring" where
  "voice_of mode = (if mode = STUDY then js ''Kore'' else js ''Zephyr'')"

definition tts_request_of :: "jsstring \<Rightarrow> AudioMode \<Rightarrow> tts_request" where
  "tts_request_of text mode =
     \<lparr>model = js ''gemini-2.5-flash-preview-tts'',
      contents = systemPrompt mode @ [0x0A, 0x0A] @ js ''Text to read: '' @ cleanTextForTTS text,
      voiceName = voice_of mode\<rparr>"

text \<open>The body of the \<^verbatim>\<open>try\<close> block. A payload that is absent or the empty string is
  falsy.\<close>

definition generateTTS_try ::
  "(jsstring \<Rightarrow> js_error + jsstring) \<Rightarrow> (tts_request \<Rightarrow> response) \<Rightarrow> jsstring \<Rightarrow> AudioMode
     \<Rightarrow> js_error + real list" where
  "generateTTS_try atob generateContent text mode =
     (case generateContent (tts_request_of text mode) of
        Rejected e \<Rightarrow> Inl e
      | Resolved base64Audio \<Rightarrow>
          (if base64Audio = None \<or> base64Audio = Some []
           then Inl (Error ''No audio data received'')
           else then_do (decodeBase64 atob (the base64Audio)) (\<lambda>uint8.
                then_do (Int16Array uint8) (\<lambda>int16.
                Inr (map (\<lambda>x. real_of_int x / 32768) int16)))))"

text \<open>The \<^verbatim>\<open>catch\<close> block.\<close>

definition quota_signal :: "js_error \<Rightarrow> bool" where
  "quota_signal error \<longleftrightarrow>
     (case message error of Some m \<Rightarrow> string_includes m (js ''quota'') | None \<Rightarrow> False)
     \<or> status error = Some 429"

definition generateTTS ::
  "(jsstring \<Rightarrow> js_error + jsstring) \<Rightarrow> (tts_request \<Rightarrow> response) \<Rightarrow> jsstring \<Rightarrow> AudioMode
     \<Rightarrow> js_error + real list" where
  "generateTTS atob generateContent text mode =
     (case generateTTS_try atob generateContent text mode of
        Inl error \<Rightarrow> if quota_signal error then Inl (Error ''QUOTA_FULL'') else Inl error
      | Inr float32 \<Rightarrow> Inr float32)"

text \<open>The caller's test, \<^verbatim>\<open>err.message === 'QUOTA_FULL'\<close>.\<close>

definition is_quota_error :: "js_error \<Rightarrow> bool" where
  "is_quota_error err \<longleftrightarrow> message err = Some (js ''QUOTA_FULL'')"

text \<open>Two remotes for concrete runs: one that rejects every call with a given value, one
  that answers every call with a given payload.\<close>

definition rejecting :: "js_error \<Rightarrow> tts_request \<Rightarrow> response" where
  "rejecting e request = Rejected e"

definition answering :: "jsstring option \<Rightarrow> tts_request \<Rightarrow> response" where
  "answering payload request = Resolved payload"

text \<open>Sample values thrown by the remote call, for concrete runs.\<close>

definition too_many_requests :: js_error where
  "too_many_requests = \<lparr>message = Some (js ''Too Many Requests''), status = Some 429\<rparr>"

definition quota_message :: js_error where
  "quota_message = \<lparr>message = Some (js ''You exceeded your current quota''), status = None\<rparr>"

definition server_error :: js_error where
  "server_error = \<lparr>message = Some (js ''Internal error''), status = Some 500\<rparr>"

definition quota_full_lookalike :: js_error where
  "quota_full_lookalike = \<lparr>message = Some (js ''QUOTA_FULL''), status = Some 500\<rparr>"

section \<open>pcmToWav\<close>

text \<open>
  A \<^verbatim>\<open>DataView\<close> over an \<^verbatim>\<open>ArrayBuffer\<close> is the list of its bytes. Every
  setter throws a \<^verbatim>\<open>RangeError\<close> when the bytes it writes do not lie inside the
  buffer, and stores its argument modulo the width of the field. The integers passed in
  \<open>pcmToWav\<close> are modelled as \<open>int\<close>, the samples of a \<^verbatim>\<open>Float32Array\<close>
  as finite reals: the products with \<^verbatim>\<open>0x8000\<close> and \<^verbatim>\<open>0x7FFF\<close> are exact
  in double precision for every float32 value. All calls are little-endian.
\<close>

definition out_of_bounds :: js_error where
  "out_of_bounds = Error ''Offset is outside the bounds of the DataView''"

definition setUint8 :: "bytes \<Rightarrow> nat \<Rightarrow> int \<Rightarrow> js_error + bytes" where
  "setUint8 view byteOffset v =
     (if byteOffset + 1 \<le> length view
      then Inr (view[byteOffset := nat (v mod 256)])
      else Inl out_of_bounds)"

definition setUint16 :: "bytes \<Rightarrow> nat \<Rightarrow> int \<Rightarrow> js_error + bytes" where
  "setUint16 view byteOffset v =
     (if byteOffset + 2 \<le> length view
      then Inr (view[byteOffset := nat (v mod 256),
                     byteOffset + 1 := nat (v div 256 mod 256)])
      else Inl out_of_bounds)"

definition setUint32 :: "bytes \<Rightarrow> nat \<Rightarrow> int \<Rightarrow> js_error + bytes" where
  "setUint32 view byteOffset v =
     (if byteOffset + 4 \<le> length view
      then Inr (view[byteOffset := nat (v mod 256),
                     byteOffset + 1 := nat (v div 256 mod 256),
                     byteOffset + 2 := nat (v div 65536 mod 256),
                     byteOffset + 3 := nat (v div 16777216 mod 256)])
      else Inl out_of_bounds)"

text \<open>\<^verbatim>\<open>setInt16\<close> takes a number: it is truncated towards zero and stored modulo
  \<open>2 ^ 16\<close>, the two's complement of a negative value.\<close>

definition trunc_toward_zero :: "real \<Rightarrow> int" where
  "trunc_toward_zero x = (if 0 \<le> x then \<lfloor>x\<rfloor> else \<lceil>x\<rceil>)"

definition setInt16 :: "bytes \<Rightarrow> nat \<Rightarrow> real \<Rightarrow> js_error + bytes" where
  "setInt16 view byteOffset x = setUint16 view byteOffset (trunc_toward_zero x mod 65536)"

fun writeString :: "bytes \<Rightarrow> nat \<Rightarrow> jsstring \<Rightarrow> js_error + bytes" where
  "writeString view offset [] = Inr view"
| "writeString view offset (c # cs) =
     then_do (setUint8 view offset (int c)) (\<lambda>view. writeString view (offset + 1) cs)"

text \<open>The loop over the samples: \<^verbatim>\<open>Math.max(-1, Math.min(1, pcmData[i]))\<close>, the
  scaling, the store, \<^verbatim>\<open>offset += 2\<close>.\<close>

definition scale_sample :: "real \<Rightarrow> real" where
  "scale_sample x = (let s = max (- 1) (min 1 x) in if s < 0 then s * 0x8000 else s * 0x7FFF)"

fun write_samples :: "bytes \<Rightarrow> nat \<Rightarrow> real list \<Rightarrow> js_error + bytes" where
  "write_samples view offset [] = Inr view"
| "write_samples view offset (x # xs) =
     then_do (setInt16 view offset (scale_sample x)) (\<lambda>view. write_samples view (offset + 2) xs)"

record blob =
  blob_data :: bytes
  blob_type :: string

definition pcmToWav :: "real list \<Rightarrow> int \<Rightarrow> js_error + blob" where
  "pcmToWav pcmData sampleRate =
     (let buffer = replicate (44 + length pcmData * 2) 0 in
      then_do (writeString buffer 0 (js ''RIFF'')) (\<lambda>view.
      then_do (setUint32 view 4 (36 + int (length pcmData) * 2)) (\<lambda>view.
      then_do (writeString view 8 (js ''WAVE'')) (\<lambda>view.
      then_do (writeString view 12 (js ''fmt '')) (\<lambda>view.
      then_do (setUint32 view 16 16) (\<lambda>view.
      then_do (setUint16 view 20 1) (\<lambda>view.
      then_do (setUint16 view 22 1) (\<lambda>view.
      then_do (setUint32 view 24 sampleRate) (\<lambda>view.
      then_do (setUint32 view 28 (sampleRate * 2)) (\<lambda>view.
      then_do (setUint16 view 32 2) (\<lambda>view.
      then_do (setUint16 view 34 16) (\<lambda>view.
      then_do (writeString view 36 (js ''data'')) (\<lambda>view.
      then_do (setUint32 view 40 (int (length pcmData) * 2)) (\<lambda>view.
      then_do (write_samples view 44 pcmData) (\<lambda>view.
      Inr \<lparr>blob_data = view, blob_type = ''audio/wav''\<rparr>)))))))))))))))"

text \<open>Reading a buffer back, little-endian: an unsigned 16-bit field, an unsigned 32-bit
  field, a signed 16-bit field.\<close>

definition getUint16 :: "bytes \<Rightarrow> nat \<Rightarrow> int" where
  "getUint16 view byteOffset = int (view ! byteOffset) + 256 * int (view ! (byteOffset + 1))"

definition getUint32 :: "bytes \<Rightarrow> nat \<Rightarrow> int" where
  "getUint32 view byteOffset =
     int (view ! byteOffset) + 256 * int (view ! (byteOffset + 1))
     + 65536 * int (view ! (byteOffset + 2)) + 16777216 * int (view ! (byteOffset + 3))"

definition getInt16 :: "bytes \<Rightarrow> nat \<Rightarrow> int" where
  "getInt16 view byteOffset = int16_le (view ! byteOffset) (view ! (byteOffset + 1))"

text \<open>
  The byte layout in the words of the specification: the 44 bytes of the RIFF header,
  every field little-endian, followed by two bytes for each sample.
\<close>

definition le16 :: "int \<Rightarrow> bytes" where
  "le16 v = [nat (v mod 256), nat (v div 256 mod 256)]"

definition le32 :: "int \<Rightarrow> bytes" where
  "le32 v = [nat (v mod 256), nat (v div 256 mod 256), nat (v div 65536 mod 256),
             nat (v div 16777216 mod 256)]"

definition wav_header :: "nat \<Rightarrow> int \<Rightarrow> bytes" where
  "wav_header sampleCount sampleRate =
     js ''RIFF'' @ le32 (36 + int sampleCount * 2) @ js ''WAVE'' @
     js ''fmt '' @ le32 16 @ le16 1 @ le16 1 @ le32 sampleRate @ le32 (sampleRate * 2) @
     le16 2 @ le16 16 @
     js ''data'' @ le32 (int sampleCount * 2)"

definition sample_bytes :: "real \<Rightarrow> bytes" where
  "sample_bytes x = le16 (trunc_toward_zero (scale_sample x))"

section \<open>StorageService\<close>

record LibraryItem =
  item_id :: jsstring
  title :: jsstring
  timestamp :: int
  duration :: real
  item_blob :: blob
  item_mode :: AudioMode
  voice :: jsstring

text \<open>
  The browser's side of IndexedDB. The object store \<^verbatim>\<open>audioLibrary\<close> of the database
  \<^verbatim>\<open>AIAudioStudioDB\<close> is a map from the key path \<^verbatim>\<open>id\<close> to the item stored;
  it is empty until the first \<^verbatim>\<open>open\<close> creates it. \<open>db\<close> says whether the
  service holds a connection (\<^verbatim>\<open>this.db\<close> is not \<^verbatim>\<open>null\<close>). Whether the browser
  lets a request succeed is not the code's to decide: \<open>open_ok\<close> and \<open>request_ok\<close>
  say which of \<^verbatim>\<open>onsuccess\<close> and \<^verbatim>\<open>onerror\<close> fires. As IndexedDB has it, the
  outcome of a \<^verbatim>\<open>delete\<close> does not depend on the key being present.

  Each method gives the settled promise (\<open>Inl\<close> a rejection) and the state after it.
\<close>

record StorageService =
  db :: bool
  objectStore :: "jsstring \<rightharpoonup> LibraryItem"

record idb_outcomes =
  open_ok :: bool
  request_ok :: bool

definition init :: "idb_outcomes \<Rightarrow> StorageService \<Rightarrow> (js_error + unit) \<times> StorageService" where
  "init env s =
     (if open_ok env then (Inr (), s\<lparr>db := True\<rparr>)
      else (Inl (Error ''Failed to open IndexedDB''), s))"

text \<open>\<^verbatim>\<open>if (!this.db) await this.init();\<close>\<close>

definition ensure_db :: "idb_outcomes \<Rightarrow> StorageService \<Rightarrow> (js_error + unit) \<times> StorageService" where
  "ensure_db env s = (if \<not> db s then init env s else (Inr (), s))"

definition saveItem ::
  "idb_outcomes \<Rightarrow> LibraryItem \<Rightarrow> StorageService \<Rightarrow> (js_error + unit) \<times> StorageService" where
  "saveItem env item s =
     (case ensure_db env s of
        (Inl e, s') \<Rightarrow> (Inl e, s')
      | (Inr _, s') \<Rightarrow>
          if request_ok env
          then (Inr (), s'\<lparr>objectStore := (objectStore s')(item_id item \<mapsto> item)\<rparr>)
          else (Inl (Error ''Failed to save audio''), s'))"

text \<open>\<^verbatim>\<open>getAll\<close> returns the items in ascending order of their keys; the model gives the
  set of items, the caller sorts by time stamp.\<close>

definition getItems ::
  "idb_outcomes \<Rightarrow> StorageService \<Rightarrow> (js_error + LibraryItem set) \<times> StorageService" where
  "getItems env s =
     (case ensure_db env s of
        (Inl e, s') \<Rightarrow> (Inl e, s')
      | (Inr _, s') \<Rightarrow>
          if request_ok env then (Inr (ran (objectStore s')), s')
          else (Inl (Error ''Failed to retrieve library''), s'))"

definition deleteItem ::
  "idb_outcomes \<Rightarrow> jsstring \<Rightarrow> StorageService \<Rightarrow> (js_error + unit) \<times> StorageService" where
  "deleteItem env ident s =
     (case ensure_db env s of
        (Inl e, s') \<Rightarrow> (Inl e, s')
      | (Inr _, s') \<Rightarrow>
          if request_ok env
          then (Inr (), s'\<lparr>objectStore := (objectStore s')(ident := None)\<rparr>)
          else (Inl (Error ''Failed to delete item''), s'))"

text \<open>A browser in which every request succeeds, and a store holding one item.\<close>

definition idb_works :: idb_outcomes where
  "idb_works = \<lparr>open_ok = True, request_ok = True\<rparr>"

definition sample_item :: LibraryItem where
  "sample_item =
     \<lparr>item_id = js ''a1'', title = js ''Hello'', timestamp = 1700000000000, duration = 1 / 2,
      item_blob = \<lparr>blob_data = [1, 2, 3], blob_type = ''audio/mp3''\<rparr>,
      item_mode = STUDY, voice = js ''Kore''\<rparr>"

definition sample_store :: StorageService where
  "sample_store = \<lparr>db = False, objectStore = [js ''a1'' \<mapsto> sample_item]\<rparr>"

section \<open>AudioEngine\<close>

text \<open>
  The Web Audio objects the engine holds. An \<^verbatim>\<open>AudioBuffer\<close> is its one channel of
  samples at 24000 Hz. Every \<^verbatim>\<open>AudioBufferSourceNode\<close> the context has created is an
  entry of \<open>nodes\<close>, and its index is its identity, so \<open>currentSource\<close> is an index
  or \<open>None\<close> for \<^verbatim>\<open>null\<close>. A node records its buffer, its playback rate, whether
  \<^verbatim>\<open>start\<close> was called, how many times \<^verbatim>\<open>stop\<close> was called, and whether it has
  played to its end. The context is absent, running or suspended; \<^verbatim>\<open>suspend()\<close> and
  \<^verbatim>\<open>resume()\<close> are taken to act at once.
\<close>

record AudioBuffer =
  channelData :: "real list"

definition buffer_duration :: "AudioBuffer \<Rightarrow> real" where
  "buffer_duration b = real (length (channelData b)) / 24000"

record source_node =
  node_buffer :: AudioBuffer
  playbackRate :: real
  started :: bool
  stop_calls :: nat
  finished :: bool

datatype context_state = running | suspended

record AudioEngine =
  audioCtx :: "context_state option"
  nodes :: "source_node list"
  currentSource :: "nat option"
  startTime :: real
  pauseTime :: real
  isActuallyPlaying :: bool

definition new_engine :: AudioEngine where
  "new_engine = \<lparr>audioCtx = None, nodes = [], currentSource = None, startTime = 0,
     pauseTime = 0, isActuallyPlaying = False\<rparr>"

text \<open>A node sounds from \<^verbatim>\<open>start\<close> until it is stopped or has played to its end.\<close>

definition audible :: "source_node \<Rightarrow> bool" where
  "audible n \<longleftrightarrow> started n \<and> stop_calls n = 0 \<and> \<not> finished n"

definition initContext :: "AudioEngine \<Rightarrow> AudioEngine" where
  "initContext e =
     (let e = (if audioCtx e = None then e\<lparr>audioCtx := Some running\<rparr> else e)
      in if audioCtx e = Some suspended then e\<lparr>audioCtx := Some running\<rparr> else e)"

text \<open>\<^verbatim>\<open>createBuffer(1, length, 24000)\<close> throws a \<^verbatim>\<open>NotSupportedError\<close> for a
  length of zero.\<close>

definition decodeToBuffer :: "real list \<Rightarrow> AudioEngine \<Rightarrow> (js_error + AudioBuffer) \<times> AudioEngine" where
  "decodeToBuffer pcmData e =
     (let e = initContext e
      in if length pcmData = 0
         then (Inl (Error ''The number of frames provided (0) is less than or equal to the minimum bound (0).''), e)
         else (Inr \<lparr>channelData = pcmData\<rparr>, e))"

text \<open>\<^verbatim>\<open>stop()\<close>: the \<^verbatim>\<open>try\<close> swallows whatever \<^verbatim>\<open>currentSource.stop()\<close>
  throws.\<close>

definition stop :: "AudioEngine \<Rightarrow> AudioEngine" where
  "stop e =
     (case currentSource e of
        Some i \<Rightarrow>
          e\<lparr>nodes := (nodes e)[i := (nodes e ! i)\<lparr>stop_calls := stop_calls (nodes e ! i) + 1\<rparr>],
            currentSource := None, isActuallyPlaying := False\<rparr>
      | None \<Rightarrow> e\<lparr>isActuallyPlaying := False\<rparr>)"

text \<open>The steps of \<open>playBuffer\<close> after \<^verbatim>\<open>this.stop()\<close>: the new node is created,
  given its buffer and rate, and started; \<open>now\<close> is \<^verbatim>\<open>audioCtx.currentTime\<close>.\<close>

definition start_source :: "AudioBuffer \<Rightarrow> real \<Rightarrow> real \<Rightarrow> AudioEngine \<Rightarrow> AudioEngine" where
  "start_source buffer rate now e =
     e\<lparr>nodes := nodes e @ [\<lparr>node_buffer = buffer, playbackRate = rate, started = True,
                              stop_calls = 0, finished = False\<rparr>],
       currentSource := Some (length (nodes e)),
       startTime := now,
       isActuallyPlaying := True\<rparr>"

definition playBuffer :: "AudioBuffer \<Rightarrow> real \<Rightarrow> real \<Rightarrow> AudioEngine \<Rightarrow> AudioEngine" where
  "playBuffer buffer rate now e = start_source buffer rate now (stop (initContext e))"

definition pause :: "AudioEngine \<Rightarrow> AudioEngine" where
  "pause e = (if audioCtx e \<noteq> None then e\<lparr>audioCtx := Some suspended\<rparr> else e)"

definition resume :: "AudioEngine \<Rightarrow> AudioEngine" where
  "resume e = (if audioCtx e \<noteq> None then e\<lparr>audioCtx := Some running\<rparr> else e)"

definition setPlaybackRate :: "real \<Rightarrow> AudioEngine \<Rightarrow> AudioEngine" where
  "setPlaybackRate rate e =
     (case currentSource e of
        Some i \<Rightarrow> e\<lparr>nodes := (nodes e)[i := (nodes e ! i)\<lparr>playbackRate := rate\<rparr>]\<rparr>
      | None \<Rightarrow> e)"

text \<open>The \<^verbatim>\<open>ended\<close> event of node \<open>i\<close>, with the handler \<open>playBuffer\<close> gave it.\<close>

definition source_ended :: "nat \<Rightarrow> AudioEngine \<Rightarrow> AudioEngine" where
  "source_ended i e =
     (if i < length (nodes e)
      then e\<lparr>nodes := (nodes e)[i := (nodes e ! i)\<lparr>finished := True\<rparr>],
             isActuallyPlaying := False\<rparr>
      else e)"

text \<open>
  The states of the specification's controller, read off the engine: no source loaded,
  a source loaded with the clock suspended, a source loaded and sounding, a source
  loaded that no longer sounds. The flag \<open>isActuallyPlaying\<close> is written by the engine
  and never read, so it takes no part in the state.
\<close>

datatype controller_state = Idle | Playing | Paused | Ended

definition controller :: "AudioEngine \<Rightarrow> controller_state" where
  "controller e =
     (case currentSource e of
        None \<Rightarrow> Idle
      | Some i \<Rightarrow>
          if audioCtx e = Some suspended then Paused
          else if audible (nodes e ! i) then Playing
          else Ended)"

text \<open>Exclusive ownership: the current source is a node of the context, and no other
  node sounds.\<close>

definition exclusive :: "AudioEngine \<Rightarrow> bool" where
  "exclusive e \<longleftrightarrow>
     (\<forall>i. currentSource e = Some i \<longrightarrow> i < length (nodes e)) \<and>
     (\<forall>j < length (nodes e). currentSource e \<noteq> Some j \<longrightarrow> \<not> audible (nodes e ! j))"

text \<open>The number of nodes that sound.\<close>

definition audible_count :: "AudioEngine \<Rightarrow> nat" where
  "audible_count e = length (filter audible (nodes e))"

inductive reachable :: "AudioEngine \<Rightarrow> bool" where
  start: "reachable new_engine"
| play: "reachable e \<Longrightarrow> reachable (playBuffer buffer rate now e)"
| stopped: "reachable e \<Longrightarrow> reachable (stop e)"
| paused: "reachable e \<Longrightarrow> reachable (pause e)"
| resumed: "reachable e \<Longrightarrow> reachable (resume e)"
| rate: "reachable e \<Longrightarrow> reachable (setPlaybackRate r e)"
| ended: "reachable e \<Longrightarrow> reachable (source_ended i e)"
| decoded: "reachable e \<Longrightarrow> reachable (snd (decodeToBuffer pcmData e))"

text \<open>An engine that plays one buffer, for concrete runs.\<close>

definition first_buffer :: AudioBuffer where
  "first_buffer = \<lparr>channelData = [0, 1 / 2, - 1 / 2]\<rparr>"

definition second_buffer :: AudioBuffer where
  "second_buffer = \<lparr>channelData = [1 / 4, - 1]\<rparr>"

definition playing_engine :: AudioEngine where
  "playing_engine = playBuffer first_buffer 1 0 new_engine"

section \<open>pcmToMp3\<close>

text \<open>
  \<^verbatim>\<open>window.lamejs\<close> is the optional compression backend: absent, or an encoder whose
  state the model leaves open. \<^verbatim>\<open>encodeBuffer\<close> and \<^verbatim>\<open>flush\<close> return the bytes
  they emit, or throw. Storing a number into an \<^verbatim>\<open>Int16Array\<close> truncates it towards
  zero and wraps it into the signed 16-bit range.
\<close>

record 'st lamejs =
  Mp3Encoder :: "int \<Rightarrow> int \<Rightarrow> int \<Rightarrow> 'st"
  encodeBuffer :: "'st \<Rightarrow> int list \<Rightarrow> js_error + 'st \<times> bytes"
  flush :: "'st \<Rightarrow> js_error + bytes"

definition to_int16 :: "real \<Rightarrow> int" where
  "to_int16 x = (let u = trunc_toward_zero x mod 65536 in if u < 32768 then u else u - 65536)"

text \<open>The loop \<^verbatim>\<open>for (let i = 0; i < samples.length; i += sampleBlockSize)\<close> with
  \<^verbatim>\<open>sampleBlockSize = 1152\<close>; \<open>samples\<close> is what lies from \<open>i\<close> on.\<close>

function encode_blocks ::
  "'st lamejs \<Rightarrow> 'st \<Rightarrow> int list \<Rightarrow> bytes list \<Rightarrow> js_error + 'st \<times> bytes list" where
  "encode_blocks lame mp3encoder samples mp3Data =
     (if samples = [] then Inr (mp3encoder, mp3Data)
      else (case encodeBuffer lame mp3encoder (take 1152 samples) of
              Inl e \<Rightarrow> Inl e
            | Inr (mp3encoder', mp3buf) \<Rightarrow>
                encode_blocks lame mp3encoder' (drop 1152 samples)
                  (if length mp3buf > 0 then mp3Data @ [mp3buf] else mp3Data)))"
  by pat_completeness auto
termination
  by (relation "measure (\<lambda>(lame, mp3encoder, samples, mp3Data). length samples)") auto

definition pcmToMp3 :: "'st lamejs option \<Rightarrow> real list \<Rightarrow> int \<Rightarrow> js_error + blob" where
  "pcmToMp3 lame pcmData sampleRate =
     (case lame of
        None \<Rightarrow> pcmToWav pcmData sampleRate
      | Some lame \<Rightarrow>
          then_do (encode_blocks lame (Mp3Encoder lame 1 sampleRate 128)
                     (map (\<lambda>x. to_int16 (scale_sample x)) pcmData) []) (\<lambda>(mp3encoder, mp3Data).
          then_do (flush lame mp3encoder) (\<lambda>mp3buf.
          Inr \<lparr>blob_data = concat (if length mp3buf > 0 then mp3Data @ [mp3buf] else mp3Data),
               blob_type = ''audio/mp3''\<rparr>)))"

section \<open>handleGenerate\<close>

text \<open>
  The state of the \<^verbatim>\<open>App\<close> component, the engine and the storage service make up the
  world \<open>handleGenerate\<close> runs in. What the run takes from outside is its environment:
  \<^verbatim>\<open>atob\<close>, the outcome of the \<open>i\<close>-th call of the remote model, the clock of the
  audio context, \<^verbatim>\<open>crypto.randomUUID()\<close>, \<^verbatim>\<open>Date.now()\<close>, the compression backend
  and the outcomes of the IndexedDB requests.
\<close>

record AudioState =
  isPlaying :: bool
  isPaused :: bool
  currentTime :: real
  state_duration :: real
  state_playbackRate :: real
  currentTitle :: jsstring
  currentVoice :: jsstring

record App =
  app_text :: jsstring
  app_title :: jsstring
  app_mode :: AudioMode
  library :: "LibraryItem list"
  isGenerating :: bool
  progress :: int
  app_error :: "jsstring option"
  audioState :: AudioState

record world =
  app :: App
  audioEngine :: AudioEngine
  storage :: StorageService

record 'st environment =
  env_atob :: "jsstring \<Rightarrow> js_error + jsstring"
  env_generateContent :: "nat \<Rightarrow> tts_request \<Rightarrow> response"
  env_currentTime :: real
  env_randomUUID :: jsstring
  env_date_now :: int
  env_lamejs :: "'st lamejs option"
  env_idb :: idb_outcomes

text \<open>\<^verbatim>\<open>Math.round\<close> rounds a half upwards.\<close>

definition Math_round :: "real \<Rightarrow> int" where
  "Math_round x = \<lfloor>x + 1 / 2\<rfloor>"

text \<open>
  \<^verbatim>\<open>audioEngine.generateTTS(sentences[0], mode)\<close>. With no sentence at all
  \<^verbatim>\<open>sentences[0]\<close> is \<^verbatim>\<open>undefined\<close>, \<open>cleanTextForTTS\<close> throws a
  \<^verbatim>\<open>TypeError\<close> inside the \<^verbatim>\<open>try\<close> of \<open>generateTTS\<close>, no call is made, and the
  error is thrown again (the message is V8's).
\<close>

definition first_sentence ::
  "'st environment \<Rightarrow> AudioMode \<Rightarrow> jsstring list \<Rightarrow> js_error + real list" where
  "first_sentence env mode sentences =
     (case sentences of
        [] \<Rightarrow> Inl (Error ''Cannot read properties of undefined (reading 'replace')'')
      | s # _ \<Rightarrow> generateTTS (env_atob env) (env_generateContent env 0) s mode)"

text \<open>
  The loop \<^verbatim>\<open>for (let i = 1; i < totalSentences; i++)\<close>: \<open>rest\<close> is
  \<^verbatim>\<open>sentences[i]\<close>, \<^verbatim>\<open>sentences[i + 1]\<close>, and so on. It carries
  \<^verbatim>\<open>combinedPCMChunks\<close>, \<^verbatim>\<open>totalLength\<close> and the progress shown, and stops at the
  first call that throws.
\<close>

fun remaining_parts ::
  "'st environment \<Rightarrow> AudioMode \<Rightarrow> nat \<Rightarrow> nat \<Rightarrow> jsstring list \<Rightarrow> real list list \<times> nat \<times> int
     \<Rightarrow> js_error option \<times> real list list \<times> nat \<times> int" where
  "remaining_parts env mode totalSentences i [] st = (None, st)"
| "remaining_parts env mode totalSentences i (s # rest) (combinedPCMChunks, totalLength, prog) =
     (case generateTTS (env_atob env) (env_generateContent env i) s mode of
        Inl e \<Rightarrow> (Some e, (combinedPCMChunks, totalLength, prog))
      | Inr chunk \<Rightarrow>
          remaining_parts env mode totalSentences (i + 1) rest
            (combinedPCMChunks @ [chunk], totalLength + length chunk,
             Math_round (real (i + 1) / real totalSentences * 100)))"

text \<open>\<^verbatim>\<open>finalPCM.set(chunk, offset)\<close> throws a \<^verbatim>\<open>RangeError\<close> when the chunk does
  not fit behind the offset.\<close>

definition typed_array_set :: "real list \<Rightarrow> real list \<Rightarrow> nat \<Rightarrow> js_error + real list" where
  "typed_array_set target source offset =
     (if offset + length source \<le> length target
      then Inr (take offset target @ source @ drop (offset + length source) target)
      else Inl (Error ''offset is out of bounds''))"

fun merge_chunks :: "real list \<Rightarrow> nat \<Rightarrow> real list list \<Rightarrow> js_error + real list" where
  "merge_chunks finalPCM offset [] = Inr finalPCM"
| "merge_chunks finalPCM offset (chunk # rest) =
     then_do (typed_array_set finalPCM chunk offset) (\<lambda>finalPCM.
       merge_chunks finalPCM (offset + length chunk) rest)"

definition new_item :: "'st environment \<Rightarrow> App \<Rightarrow> real list \<Rightarrow> blob \<Rightarrow> LibraryItem" where
  "new_item env a finalPCM mp3Blob =
     \<lparr>item_id = env_randomUUID env,
      title = (if app_title a = [] then js ''Untitled Audio'' else app_title a),
      timestamp = env_date_now env,
      duration = real (length finalPCM) / 24000,
      item_blob = mp3Blob,
      item_mode = app_mode a,
      voice = voice_of (app_mode a)\<rparr>"

text \<open>
  "Merge and Convert to MP3", and the save: the part of the \<^verbatim>\<open>try\<close> block after the
  loop. \<open>a\<close> is the component state the handler closed over, whose \<open>library\<close> the
  new list is built from. The timer that resets the progress a second later is not
  part of the run.
\<close>

definition merge_and_save ::
  "'st environment \<Rightarrow> App \<Rightarrow> real list list \<Rightarrow> nat \<Rightarrow> world \<Rightarrow> (js_error + real list) \<times> world" where
  "merge_and_save env a combinedPCMChunks totalLength w =
     (case merge_chunks (replicate totalLength 0) 0 combinedPCMChunks of
        Inl e \<Rightarrow> (Inl e, w)
      | Inr finalPCM \<Rightarrow>
          (case pcmToMp3 (env_lamejs env) finalPCM 24000 of
             Inl e \<Rightarrow> (Inl e, w)
           | Inr mp3Blob \<Rightarrow>
               (case saveItem (env_idb env) (new_item env a finalPCM mp3Blob) (storage w) of
                  (Inl e, st) \<Rightarrow> (Inl e, w\<lparr>storage := st\<rparr>)
                | (Inr _, st) \<Rightarrow>
                    (Inr finalPCM,
                     w\<lparr>storage := st,
                       app := (app w)\<lparr>library := new_item env a finalPCM mp3Blob # library a,
                                      progress := 100\<rparr>\<rparr>))))"

text \<open>The \<^verbatim>\<open>try\<close> block: what it throws or, when it completes, the final sample
  buffer, and the world it leaves.\<close>

definition handleGenerate_try :: "'st environment \<Rightarrow> world \<Rightarrow> (js_error + real list) \<times> world" where
  "handleGenerate_try env w =
     (let a = app w;
          sentences = splitIntoSentences (app_text a);
          totalSentences = length sentences
      in case first_sentence env (app_mode a) sentences of
           Inl e \<Rightarrow> (Inl e, w)
         | Inr firstSentencePCM \<Rightarrow>
             (case decodeToBuffer firstSentencePCM (audioEngine w) of
                (Inl e, engine) \<Rightarrow> (Inl e, w\<lparr>audioEngine := engine\<rparr>)
              | (Inr buffer, engine) \<Rightarrow>
                  (let shown = (audioState a)\<lparr>isPlaying := True, isPaused := False,
                         state_duration := buffer_duration buffer,
                         currentTitle := app_title a,
                         currentVoice := voice_of (app_mode a)\<rparr>;
                       engine = playBuffer buffer (state_playbackRate (audioState a))
                         (env_currentTime env) engine
                   in case remaining_parts env (app_mode a) totalSentences 1 (tl sentences)
                          ([firstSentencePCM], length firstSentencePCM,
                           Math_round (100 / real totalSentences)) of
                        (Some e, combinedPCMChunks, totalLength, prog) \<Rightarrow>
                          (Inl e, w\<lparr>app := (app w)\<lparr>audioState := shown, progress := prog\<rparr>,
                                   audioEngine := engine\<rparr>)
                      | (None, combinedPCMChunks, totalLength, prog) \<Rightarrow>
                          merge_and_save env a combinedPCMChunks totalLength
                            (w\<lparr>app := (app w)\<lparr>audioState := shown, progress := prog\<rparr>,
                               audioEngine := engine\<rparr>))))"

definition handleGenerate :: "'st environment \<Rightarrow> world \<Rightarrow> world" where
  "handleGenerate env w =
     (if trim (app_text (app w)) = []
      then w\<lparr>app := (app w)\<lparr>app_error := Some (js ''Please enter some text first.'')\<rparr>\<rparr>
      else
        (case handleGenerate_try env
                (w\<lparr>app := (app w)\<lparr>app_error := None, isGenerating := True, progress := 5\<rparr>\<rparr>) of
           (Inl err, w') \<Rightarrow>
             w'\<lparr>app := (app w')\<lparr>
                   app_error := Some (if is_quota_error err
                                      then js ''API Quota Full. Please wait a moment.''
                                      else js ''An error occurred during generation.''),
                   isGenerating := False\<rparr>\<rparr>
         | (Inr _, w') \<Rightarrow> w'\<lparr>app := (app w')\<lparr>isGenerating := False\<rparr>\<rparr>))"

text \<open>A run for concrete checks: the text of the specification's scenario, a remote that
  answers the first call with two samples and every later call with one, no compression
  backend, a browser whose storage works.\<close>

definition sample_generateContent :: "nat \<Rightarrow> tts_request \<Rightarrow> response" where
  "sample_generateContent i =
     (if i = 0 then answering (Some (js ''AID/fw=='')) else answering (Some (js ''AEA='')))"

definition sample_environment :: "unit environment" where
  "sample_environment =
     \<lparr>env_atob = atob_html, env_generateContent = sample_generateContent,
      env_currentTime = 0, env_randomUUID = js ''id-1'', env_date_now = 1700000000000,
      env_lamejs = None, env_idb = idb_works\<rparr>"

definition sample_world :: world where
  "sample_world =
     \<lparr>app = \<lparr>app_text = js ''Hello world. This is a test.'', app_title = js ''Demo'',
              app_mode = STUDY, library = [], isGenerating = False, progress = 0,
              app_error = None,
              audioState = \<lparr>isPlaying = False, isPaused = False, currentTime = 0,
                 state_duration = 0, state_playbackRate = 1, currentTitle = [],
                 currentVoice = js ''Kore''\<rparr>\<rparr>,
      audioEngine = new_engine,
      storage = \<lparr>db = False, objectStore = Map.empty\<rparr>\<rparr>"

section \<open>Properties of splitIntoSentences\<close>

lemma trim_eq_Nil_iff: "trim s = [] \<longleftrightarrow> (\<forall>c\<in>set s. is_ws c)"
proof -
  define d where "d = dropWhile is_ws s"
  have "trim s = [] \<longleftrightarrow> dropWhile is_ws (rev d) = []"
    by (simp add: trim_def d_def)
  also have "\<dots> \<longleftrightarrow> (\<forall>c\<in>set d. is_ws c)"
    by (simp add: dropWhile_eq_Nil_conv)
  also have "\<dots> \<longleftrightarrow> d = []"
    using hd_dropWhile [of is_ws s] unfolding d_def [symmetric] by (cases d) auto
  also have "\<dots> \<longleftrightarrow> (\<forall>c\<in>set s. is_ws c)"
    by (simp add: d_def dropWhile_eq_Nil_conv)
  finally show ?thesis .
qed

lemma terminator_not_ws: "is_terminator c \<Longrightarrow> \<not> is_ws c"
  by (auto simp: is_terminator_def is_ws_def is_line_terminator_def)

lemma split_go_not_Nil: "split_go t cur s \<noteq> []"
  by (induction t cur s rule: split_go.induct) auto

lemma split_go_heads:
  "(cur = [] \<longrightarrow> s = [] \<or> \<not> is_ws (hd s)) \<Longrightarrow> (cur \<noteq> [] \<longrightarrow> \<not> is_ws (hd cur)) \<Longrightarrow>
   \<forall>u\<in>set (split_go t cur s). u = [] \<or> \<not> is_ws (hd u)"
proof (induction t cur s rule: split_go.induct)
  case (1 t cur)
  then show ?case by auto
next
  case (2 t cur c cs)
  show ?case
  proof (cases "t \<and> is_ws c")
    case True
    have "dropWhile is_ws cs = [] \<or> \<not> is_ws (hd (dropWhile is_ws cs))"
      using hd_dropWhile [of is_ws cs] by blast
    then have rest: "\<forall>u\<in>set (split_go False [] (dropWhile is_ws cs)). u = [] \<or> \<not> is_ws (hd u)"
      using "2.IH"(1) [OF True] by simp
    from "2.prems"(2) have "cur = [] \<or> \<not> is_ws (hd cur)" by blast
    with rest True show ?thesis by simp
  next
    case False
    have "\<not> is_ws (hd (cur @ [c]))"
      using "2.prems" by (cases cur) simp_all
    then have "\<forall>u\<in>set (split_go (is_terminator c) (cur @ [c]) cs). u = [] \<or> \<not> is_ws (hd u)"
      using "2.IH"(2) [OF False] by simp
    then show ?thesis by (simp add: False)
  qed
qed

lemma split_go_tl_heads:
  "\<forall>u\<in>set (tl (split_go t cur s)). u = [] \<or> \<not> is_ws (hd u)"
proof (induction t cur s rule: split_go.induct)
  case (1 t cur)
  then show ?case by simp
next
  case (2 t cur c cs)
  show ?case
  proof (cases "t \<and> is_ws c")
    case True
    have "dropWhile is_ws cs = [] \<or> \<not> is_ws (hd (dropWhile is_ws cs))"
      using hd_dropWhile [of is_ws cs] by blast
    then have "\<forall>u\<in>set (split_go False [] (dropWhile is_ws cs)). u = [] \<or> \<not> is_ws (hd u)"
      by (intro split_go_heads) simp_all
    with True show ?thesis by simp
  next
    case False
    from "2.IH"(2) [OF False] show ?thesis by (simp add: False)
  qed
qed

lemma split_go_butlast_lasts:
  "(t \<longrightarrow> cur \<noteq> [] \<and> is_terminator (last cur)) \<Longrightarrow>
   \<forall>u\<in>set (butlast (split_go t cur s)). u \<noteq> [] \<and> is_terminator (last u)"
proof (induction t cur s rule: split_go.induct)
  case (1 t cur)
  then show ?case by simp
next
  case (2 t cur c cs)
  show ?case
  proof (cases "t \<and> is_ws c")
    case True
    have "\<forall>u\<in>set (butlast (split_go False [] (dropWhile is_ws cs))). u \<noteq> [] \<and> is_terminator (last u)"
      using "2.IH"(1) [OF True] by simp
    moreover have "cur \<noteq> [] \<and> is_terminator (last cur)"
      using "2.prems" True by blast
    ultimately show ?thesis
      using True by (simp add: split_go_not_Nil)
  next
    case False
    have "\<forall>u\<in>set (butlast (split_go (is_terminator c) (cur @ [c]) cs)). u \<noteq> [] \<and> is_terminator (last u)"
      using "2.IH"(2) [OF False] by simp
    then show ?thesis by (simp add: False)
  qed
qed

lemma in_set_dropWhile: "x \<in> set xs \<Longrightarrow> \<not> P x \<Longrightarrow> x \<in> set (dropWhile P xs)"
  by (induction xs) auto

lemma split_go_keeps_content:
  "\<exists>c\<in>set cur \<union> set s. \<not> is_ws c \<Longrightarrow> \<exists>u\<in>set (split_go t cur s). \<exists>c\<in>set u. \<not> is_ws c"
proof (induction t cur s rule: split_go.induct)
  case (1 t cur)
  then show ?case by simp
next
  case (2 t cur c cs)
  show ?case
  proof (cases "t \<and> is_ws c")
    case True
    then have eq: "split_go t cur (c # cs) = cur # split_go False [] (dropWhile is_ws cs)"
      by simp
    show ?thesis
    proof (cases "\<exists>x\<in>set cur. \<not> is_ws x")
      case True
      then show ?thesis unfolding eq by simp
    next
      case False
      with "2.prems" \<open>t \<and> is_ws c\<close> obtain x where x: "x \<in> set cs" "\<not> is_ws x" by auto
      then have "x \<in> set (dropWhile is_ws cs)"
        by (rule in_set_dropWhile)
      with x have "\<exists>c\<in>set [] \<union> set (dropWhile is_ws cs). \<not> is_ws c" by blast
      from "2.IH"(1) [OF \<open>t \<and> is_ws c\<close> this] show ?thesis unfolding eq by simp
    qed
  next
    case False
    then have eq: "split_go t cur (c # cs) = split_go (is_terminator c) (cur @ [c]) cs"
      by (simp add: False)
    from "2.prems" have "\<exists>x\<in>set (cur @ [c]) \<union> set cs. \<not> is_ws x" by auto
    from "2.IH"(2) [OF False this] show ?thesis unfolding eq .
  qed
qed

lemma split_go_no_terminator:
  "\<not> t \<Longrightarrow> \<forall>c\<in>set s. \<not> is_terminator c \<Longrightarrow> split_go t cur s = [cur @ s]"
proof (induction s arbitrary: t cur)
  case Nil
  then show ?case by simp
next
  case (Cons c cs)
  then have "split_go (is_terminator c) (cur @ [c]) cs = [(cur @ [c]) @ cs]"
    by (intro Cons.IH) simp_all
  with Cons.prems show ?case by simp
qed

lemma set_tl_filter: "set (tl (filter P xs)) \<subseteq> set (filter P (tl xs))"
proof (cases xs)
  case Nil
  then show ?thesis by simp
next
  case (Cons a list)
  have "set (tl (filter P list)) \<subseteq> set (filter P list)"
    by (cases "filter P list") auto
  with Cons show ?thesis by auto
qed

lemma set_butlast_filter: "set (butlast (filter P xs)) \<subseteq> set (filter P (butlast xs))"
  by (induction xs) (auto dest: in_set_butlastD)

text \<open>
  Claim C3, as the code has it. The caller \<^verbatim>\<open>handleGenerate\<close> only splits a text
  whose \<^verbatim>\<open>trim()\<close> is not empty. For such a text \<open>splitIntoSentences\<close> returns at
  least one unit; every unit is non-empty after trimming; every unit but the first
  starts with a unit that is not white space, and every unit but the last ends with one
  that is not white space (the units themselves are filtered, not trimmed, so the first
  keeps the leading and the last the trailing white space of the text); and a text
  without any sentence terminator comes back whole, as the only unit.
\<close>

theorem splitIntoSentences_units:
  assumes "trim text \<noteq> []"
  shows "splitIntoSentences text \<noteq> [] \<and>
    (\<forall>u\<in>set (splitIntoSentences text). trim u \<noteq> []) \<and>
    (\<forall>u\<in>set (tl (splitIntoSentences text)). u \<noteq> [] \<and> \<not> is_ws (hd u)) \<and>
    (\<forall>u\<in>set (butlast (splitIntoSentences text)). u \<noteq> [] \<and> \<not> is_ws (last u)) \<and>
    ((\<forall>c\<in>set text. \<not> is_terminator c) \<longrightarrow> splitIntoSentences text = [text])"
proof -
  let ?keep = "\<lambda>s. length (trim s) > 0"
  let ?pieces = "split_go False [] text"
  from assms obtain c where "c \<in> set text" "\<not> is_ws c"
    by (auto simp: trim_eq_Nil_iff)
  then have "\<exists>u\<in>set ?pieces. \<exists>c\<in>set u. \<not> is_ws c"
    by (intro split_go_keeps_content) auto
  then have nonempty: "splitIntoSentences text \<noteq> []"
    by (auto simp: splitIntoSentences_def filter_empty_conv trim_eq_Nil_iff)
  have kept: "\<forall>u\<in>set (splitIntoSentences text). trim u \<noteq> []"
    by (simp add: splitIntoSentences_def)
  have heads: "\<forall>u\<in>set (tl (splitIntoSentences text)). u \<noteq> [] \<and> \<not> is_ws (hd u)"
  proof
    fix u assume "u \<in> set (tl (splitIntoSentences text))"
    then have "u \<in> set (filter ?keep (tl ?pieces))"
      using set_tl_filter [of ?keep ?pieces] unfolding splitIntoSentences_def by blast
    then have u: "u \<in> set (tl ?pieces)" "trim u \<noteq> []" by simp_all
    from u(2) have "u \<noteq> []" by (auto simp: trim_def)
    with u(1) split_go_tl_heads [of False "[]" "text"]
    show "u \<noteq> [] \<and> \<not> is_ws (hd u)" by blast
  qed
  have lasts: "\<forall>u\<in>set (butlast (splitIntoSentences text)). u \<noteq> [] \<and> \<not> is_ws (last u)"
  proof
    fix u assume "u \<in> set (butlast (splitIntoSentences text))"
    then have "u \<in> set (filter ?keep (butlast ?pieces))"
      using set_butlast_filter [of ?keep ?pieces] unfolding splitIntoSentences_def by blast
    then have "u \<in> set (butlast ?pieces)" by simp
    with split_go_butlast_lasts [of False "[]" "text"]
    have "u \<noteq> [] \<and> is_terminator (last u)" by blast
    then show "u \<noteq> [] \<and> \<not> is_ws (last u)" by (simp add: terminator_not_ws)
  qed
  have whole: "(\<forall>c\<in>set text. \<not> is_terminator c) \<longrightarrow> splitIntoSentences text = [text]"
  proof
    assume "\<forall>c\<in>set text. \<not> is_terminator c"
    then have "?pieces = [text]"
      using split_go_no_terminator [of False "text" "[]"] by simp
    with assms show "splitIntoSentences text = [text]"
      by (simp add: splitIntoSentences_def)
  qed
  from nonempty kept heads lasts whole show ?thesis by (intro conjI)
qed

lemmas split_eval = js_def splitIntoSentences_def is_ws_def is_line_terminator_def is_terminator_def trim_def

theorem splitIntoSentences_units_witness:
  "trim (js ''Hi. Yo'') \<noteq> [] \<and>
   splitIntoSentences (js ''Hi. Yo'') = [js ''Hi.'', js ''Yo''] \<and>
   trim (js ''Hi.'') \<noteq> [] \<and> trim (js ''Yo'') \<noteq> [] \<and>
   js ''Yo'' \<noteq> [] \<and> \<not> is_ws (hd (js ''Yo'')) \<and>
   js ''Hi.'' \<noteq> [] \<and> \<not> is_ws (last (js ''Hi.'')) \<and>
   trim (js ''Hi'') \<noteq> [] \<and> \<not> is_terminator (hd (js ''Hi'')) \<and>
   splitIntoSentences (js ''Hi'') = [js ''Hi'']"
proof -
  have a: "trim (js ''Hi. Yo'') \<noteq> []" by (simp add: split_eval)
  have b: "trim (js ''Hi'') \<noteq> []" by (simp add: split_eval)
  have c: "\<forall>c\<in>set (js ''Hi''). \<not> is_terminator c" by (simp add: js_def is_terminator_def)
  have d: "splitIntoSentences (js ''Hi. Yo'') = [js ''Hi.'', js ''Yo'']"
    by (simp add: split_eval)
  have e: "splitIntoSentences (js ''Hi'') = [js ''Hi'']"
    using splitIntoSentences_units [OF b] c by blast
  note f = splitIntoSentences_units [OF a, unfolded d]
  from f have f2: "trim (js ''Hi.'') \<noteq> []" "trim (js ''Yo'') \<noteq> []" by simp_all
  from f have f3: "js ''Yo'' \<noteq> []" "\<not> is_ws (hd (js ''Yo''))" by simp_all
  from f have f4: "js ''Hi.'' \<noteq> []" "\<not> is_ws (last (js ''Hi.''))" by simp_all
  from c have c': "\<not> is_terminator (hd (js ''Hi''))" by (simp add: js_def)
  from a d f2 f3 f4 b c' e show ?thesis by (intro conjI)
qed

text \<open>
  The claim as the specification words it fails twice: a text of one space is not empty
  and gives no unit at all, and the text \<^verbatim>\<open>" a"\<close> comes back as one unit that
  still starts with the space.
\<close>

theorem splitIntoSentences_counterexample:
  "[0x20] \<noteq> ([] :: jsstring) \<and> splitIntoSentences [0x20] = [] \<and>
   [0x20, 0x61] \<noteq> ([] :: jsstring) \<and> splitIntoSentences [0x20, 0x61] = [[0x20, 0x61]] \<and>
   is_ws (hd [0x20, 0x61])"
  by (simp add: split_eval)

section \<open>Properties of cleanTextForTTS\<close>

subsection \<open>What each step leaves in the string\<close>

lemma set_strip_links_from: "set (strip_links_from k s) \<subseteq> set s"
  by (induction k s rule: strip_links_from.induct) (auto split: option.splits)

lemma set_replace_multiple_newlines:
  "set (replace_multiple_newlines s) \<subseteq> insert 0x2E (insert 0x20 (set s))"
proof (induction s rule: replace_multiple_newlines.induct)
  case (1 c d cs)
  show ?case
  proof (cases "c = 0x0A \<and> d = 0x0A")
    case True
    from "1.IH"(1) [OF True] set_dropWhileD [of _ "\<lambda>x. x = 0x0A" cs]
    show ?thesis using True by auto
  next
    case False
    from "1.IH"(2) [OF False] show ?thesis by (auto simp: False)
  qed
qed simp_all

lemma set_replace_bullet_points:
  "set (replace_bullet_points s) \<subseteq> insert 0x2C (insert 0x20 (set s))"
proof (induction s rule: replace_bullet_points.induct)
  case (1 c d cs)
  show ?case
  proof (cases "is_bullet c \<and> is_ws d")
    case True
    from "1.IH"(1) [OF True] set_dropWhileD [of _ is_ws cs]
    show ?thesis using True by auto
  next
    case False
    from "1.IH"(2) [OF False] show ?thesis by (auto simp: False)
  qed
qed simp_all

lemma set_normalize_whitespace:
  "set (normalize_whitespace s) \<subseteq> insert 0x20 {c \<in> set s. \<not> is_ws c}"
proof (induction s rule: normalize_whitespace.induct)
  case 1
  show ?case by simp
next
  case (2 c cs)
  show ?case
  proof (cases "is_ws c")
    case True
    from "2.IH"(1) [OF True] set_dropWhileD [of _ is_ws cs]
    show ?thesis using True by auto
  next
    case False
    from "2.IH"(2) [OF False] show ?thesis using False by auto
  qed
qed

lemma trim_infix: "\<exists>a b. s = a @ trim s @ b"
proof -
  define d where "d = dropWhile is_ws s"
  have "rev (takeWhile is_ws (rev d) @ dropWhile is_ws (rev d)) = d"
    unfolding takeWhile_dropWhile_id by simp
  then have "d = trim s @ rev (takeWhile is_ws (rev d))"
    unfolding rev_append trim_def d_def by simp
  moreover have "s = takeWhile is_ws s @ d" by (simp add: d_def)
  ultimately show ?thesis by metis
qed

lemma set_trim: "set (trim s) \<subseteq> set s"
proof -
  obtain a b where "s = a @ trim s @ b" using trim_infix by blast
  then have "set s = set a \<union> set (trim s) \<union> set b"
    by (metis set_append sup_assoc)
  then show ?thesis by blast
qed

subsection \<open>Bullets\<close>

lemma bullet_before_ws_Cons:
  "bullet_before_ws (c # xs) \<longleftrightarrow> (xs \<noteq> [] \<and> is_bullet c \<and> is_ws (hd xs)) \<or> bullet_before_ws xs"
  by (cases xs) auto

lemma bullet_before_ws_appendI2: "bullet_before_ws b \<Longrightarrow> bullet_before_ws (a @ b)"
  by (induction a) (auto simp: bullet_before_ws_Cons)

lemma bullet_before_ws_appendI1: "bullet_before_ws a \<Longrightarrow> bullet_before_ws (a @ b)"
proof (induction a)
  case Nil
  then show ?case by simp
next
  case (Cons c a)
  then show ?case by (cases a) (auto simp: bullet_before_ws_Cons)
qed

lemma bullet_before_ws_dropWhile:
  "bullet_before_ws (dropWhile P s) \<Longrightarrow> bullet_before_ws s"
  using bullet_before_ws_appendI2 [of "dropWhile P s" "takeWhile P s"] by simp

lemma comma_space_plain: "\<not> is_bullet 0x2C" "\<not> is_bullet 0x20" "\<not> is_ws 0x2C" "is_ws 0x20"
  by (simp_all add: is_bullet_def is_ws_def is_line_terminator_def)

lemma hd_replace_bullet_points:
  "replace_bullet_points s \<noteq> [] \<Longrightarrow> is_ws (hd (replace_bullet_points s)) \<Longrightarrow> s \<noteq> [] \<and> is_ws (hd s)"
  by (cases s rule: replace_bullet_points.cases) (auto simp: comma_space_plain split: if_splits)

lemma replace_bullet_points_clean: "\<not> bullet_before_ws (replace_bullet_points s)"
proof (induction s rule: replace_bullet_points.induct)
  case (1 c d cs)
  show ?case
  proof (cases "is_bullet c \<and> is_ws d")
    case True
    from "1.IH"(1) [OF True] show ?thesis
      using True by (simp add: bullet_before_ws_Cons comma_space_plain)
  next
    case False
    have "\<not> (is_bullet c \<and> is_ws (hd (replace_bullet_points (d # cs))) \<and> replace_bullet_points (d # cs) \<noteq> [])"
      using False hd_replace_bullet_points [of "d # cs"] by auto
    with "1.IH"(2) [OF False] show ?thesis
      by (auto simp: False bullet_before_ws_Cons)
  qed
qed simp_all

lemma replace_bullet_points_id: "\<not> bullet_before_ws s \<Longrightarrow> replace_bullet_points s = s"
proof (induction s rule: replace_bullet_points.induct)
  case (1 c d cs)
  then have F: "\<not> (is_bullet c \<and> is_ws d)" and "\<not> bullet_before_ws (d # cs)" by auto
  with "1.IH"(2) show ?case by (simp add: F)
qed simp_all

lemma hd_normalize_whitespace:
  "normalize_whitespace s \<noteq> [] \<Longrightarrow> is_ws (hd (normalize_whitespace s)) \<Longrightarrow> s \<noteq> [] \<and> is_ws (hd s)"
  by (cases s) (auto split: if_splits)

lemma bullet_before_ws_normalize:
  "bullet_before_ws (normalize_whitespace s) \<Longrightarrow> bullet_before_ws s"
proof (induction s rule: normalize_whitespace.induct)
  case 1
  then show ?case by simp
next
  case (2 c cs)
  show ?case
  proof (cases "is_ws c")
    case True
    with "2.prems" have "bullet_before_ws (normalize_whitespace (dropWhile is_ws cs))"
      by (simp add: bullet_before_ws_Cons comma_space_plain)
    from "2.IH"(1) [OF True this] have "bullet_before_ws cs"
      by (rule bullet_before_ws_dropWhile)
    then show ?thesis by (simp add: bullet_before_ws_Cons)
  next
    case False
    with "2.prems" have "(normalize_whitespace cs \<noteq> [] \<and> is_bullet c \<and> is_ws (hd (normalize_whitespace cs)))
       \<or> bullet_before_ws (normalize_whitespace cs)"
      by (simp add: bullet_before_ws_Cons)
    then show ?thesis
    proof
      assume "normalize_whitespace cs \<noteq> [] \<and> is_bullet c \<and> is_ws (hd (normalize_whitespace cs))"
      with hd_normalize_whitespace [of cs] show ?thesis
        by (simp add: bullet_before_ws_Cons)
    next
      assume "bullet_before_ws (normalize_whitespace cs)"
      from "2.IH"(2) [OF False this] show ?thesis by (simp add: bullet_before_ws_Cons)
    qed
  qed
qed

lemma bullet_before_ws_trim: "bullet_before_ws (trim s) \<Longrightarrow> bullet_before_ws s"
proof -
  assume t: "bullet_before_ws (trim s)"
  obtain a b where s: "s = a @ trim s @ b" using trim_infix by blast
  from t have "bullet_before_ws (a @ trim s @ b)"
    by (intro bullet_before_ws_appendI2 bullet_before_ws_appendI1)
  with s show ?thesis by simp
qed

subsection \<open>White space\<close>

lemma ws_normal_normalize: "ws_normal (normalize_whitespace s)"
proof (induction s rule: normalize_whitespace.induct)
  case 1
  show ?case by simp
next
  case (2 c cs)
  show ?case
  proof (cases "is_ws c")
    case True
    have "dropWhile is_ws cs = [] \<or> \<not> is_ws (hd (dropWhile is_ws cs))"
      using hd_dropWhile [of is_ws cs] by blast
    with hd_normalize_whitespace [of "dropWhile is_ws cs"]
    have "normalize_whitespace (dropWhile is_ws cs) = []
        \<or> \<not> is_ws (hd (normalize_whitespace (dropWhile is_ws cs)))"
      by blast
    with "2.IH"(1) [OF True] show ?thesis
      using True by (simp add: comma_space_plain)
  next
    case False
    with "2.IH"(2) [OF False] show ?thesis by simp
  qed
qed

lemma normalize_whitespace_id: "ws_normal s \<Longrightarrow> normalize_whitespace s = s"
proof (induction s rule: normalize_whitespace.induct)
  case 1
  show ?case by simp
next
  case (2 c cs)
  show ?case
  proof (cases "is_ws c")
    case True
    with "2.prems" have c: "c = 0x20" and h: "cs = [] \<or> \<not> is_ws (hd cs)" and n: "ws_normal cs"
      by simp_all
    from h have d: "dropWhile is_ws cs = cs" by (cases cs) auto
    from "2.IH"(1) [OF True] n d have "normalize_whitespace cs = cs" by simp
    with True c d show ?thesis by simp
  next
    case False
    with "2.prems" have "ws_normal cs" by simp
    from "2.IH"(2) [OF False this] False show ?thesis by simp
  qed
qed

lemma ws_normal_append2: "ws_normal (a @ b) \<Longrightarrow> ws_normal b"
  by (induction a) (auto split: if_splits)

lemma ws_normal_append1: "ws_normal (a @ b) \<Longrightarrow> ws_normal a"
proof (induction a)
  case Nil
  show ?case by simp
next
  case (Cons c a)
  then show ?case by (cases a) (auto split: if_splits)
qed

lemma ws_normal_trim: "ws_normal s \<Longrightarrow> ws_normal (trim s)"
proof -
  assume n: "ws_normal s"
  obtain a b where s: "s = a @ trim s @ b" using trim_infix by blast
  with n have "ws_normal (a @ (trim s @ b))" by simp
  then have "ws_normal (trim s @ b)" by (rule ws_normal_append2)
  then show ?thesis by (rule ws_normal_append1)
qed

lemma trim_trim: "trim (trim s) = trim s"
proof -
  define d where "d = dropWhile is_ws s"
  define e where "e = dropWhile is_ws (rev d)"
  have t: "trim s = rev e" by (simp add: trim_def d_def e_def)
  define r where "r = rev (takeWhile is_ws (rev d))"
  have "rev (takeWhile is_ws (rev d) @ e) = d"
    unfolding e_def takeWhile_dropWhile_id by simp
  then have d: "d = rev e @ r" by (simp add: r_def)
  have "dropWhile is_ws (rev e) = rev e"
  proof (cases "rev e")
    case Nil
    then show ?thesis by simp
  next
    case (Cons x xs)
    with d have "d = x # (xs @ r)" by simp
    then have "d \<noteq> []" "hd d = x" by simp_all
    with hd_dropWhile [of is_ws s] have "\<not> is_ws x" by (simp add: d_def)
    with Cons show ?thesis by simp
  qed
  moreover have "dropWhile is_ws e = e"
    unfolding e_def by (rule dropWhile_idem)
  ultimately show ?thesis by (simp add: trim_def t [unfolded trim_def])
qed

subsection \<open>Line feeds\<close>

lemma replace_multiple_newlines_id: "0x0A \<notin> set s \<Longrightarrow> replace_multiple_newlines s = s"
proof (induction s rule: replace_multiple_newlines.induct)
  case (1 c d cs)
  then have F: "\<not> (c = 0x0A \<and> d = 0x0A)" and "0x0A \<notin> set (d # cs)" by auto
  with "1.IH"(2) show ?case by (simp add: F)
qed simp_all

lemma no_newline_after_normalize: "0x0A \<notin> set (normalize_whitespace s)"
proof
  assume "0x0A \<in> set (normalize_whitespace s)"
  with set_normalize_whitespace [of s] have "(0x0A :: nat) = 0x20 \<or> \<not> is_ws 0x0A" by auto
  then show False by (simp add: is_ws_def is_line_terminator_def)
qed

subsection \<open>Idempotence\<close>

lemma plain_not_markdown:
  "\<not> is_markdown_symbol 0x2E" "\<not> is_markdown_symbol 0x20" "\<not> is_markdown_symbol 0x2C"
  by (simp_all add: is_markdown_symbol_def)

lemma cleanTextForTTS_no_markdown_symbol:
  "c \<in> set (cleanTextForTTS x) \<Longrightarrow> \<not> is_markdown_symbol c"
proof -
  assume c: "c \<in> set (cleanTextForTTS x)"
  let ?a = "strip_markdown_symbols x"
  let ?b = "strip_markdown_links ?a"
  let ?c = "replace_multiple_newlines ?b"
  let ?d = "replace_bullet_points ?c"
  let ?e = "normalize_whitespace ?d"
  have a: "\<forall>c\<in>set ?a. \<not> is_markdown_symbol c"
    by (simp add: strip_markdown_symbols_def)
  have b: "\<forall>c\<in>set ?b. \<not> is_markdown_symbol c"
    using a set_strip_links_from [of 0 ?a] unfolding strip_markdown_links_def by blast
  have c': "\<forall>c\<in>set ?c. \<not> is_markdown_symbol c"
    using b set_replace_multiple_newlines [of ?b] plain_not_markdown by blast
  have d: "\<forall>c\<in>set ?d. \<not> is_markdown_symbol c"
    using c' set_replace_bullet_points [of ?c] plain_not_markdown by blast
  have e: "\<forall>c\<in>set ?e. \<not> is_markdown_symbol c"
    using d set_normalize_whitespace [of ?d] plain_not_markdown by blast
  from c have "c \<in> set ?e"
    using set_trim [of ?e] unfolding cleanTextForTTS_def by blast
  with e show ?thesis by blast
qed

text \<open>
  Where the second pass finds no link to strip, it changes nothing: each of the other
  five steps leaves a normalized text as it is.
\<close>

lemma cleanTextForTTS_fixed_if_no_link_left:
  assumes "strip_markdown_links (cleanTextForTTS x) = cleanTextForTTS x"
  shows "cleanTextForTTS (cleanTextForTTS x) = cleanTextForTTS x"
proof -
  let ?d = "replace_bullet_points (replace_multiple_newlines
       (strip_markdown_links (strip_markdown_symbols x)))"
  let ?e = "normalize_whitespace ?d"
  let ?y = "cleanTextForTTS x"
  have y: "?y = trim ?e" by (simp add: cleanTextForTTS_def)
  have s1: "strip_markdown_symbols ?y = ?y"
    unfolding strip_markdown_symbols_def filter_id_conv
    using cleanTextForTTS_no_markdown_symbol [of _ x] by blast
  have "0x0A \<notin> set ?e" by (rule no_newline_after_normalize)
  then have "0x0A \<notin> set ?y" using set_trim [of ?e] unfolding y by blast
  then have s3: "replace_multiple_newlines ?y = ?y"
    by (rule replace_multiple_newlines_id)
  have "\<not> bullet_before_ws ?e"
    using replace_bullet_points_clean bullet_before_ws_normalize by blast
  then have "\<not> bullet_before_ws ?y"
    unfolding y using bullet_before_ws_trim by blast
  then have s4: "replace_bullet_points ?y = ?y"
    by (rule replace_bullet_points_id)
  have "ws_normal ?y"
    unfolding y by (intro ws_normal_trim ws_normal_normalize)
  then have s5: "normalize_whitespace ?y = ?y"
    by (rule normalize_whitespace_id)
  have s6: "trim ?y = ?y" unfolding y by (rule trim_trim)
  have "cleanTextForTTS ?y = trim (normalize_whitespace (replace_bullet_points
      (replace_multiple_newlines (strip_markdown_links (strip_markdown_symbols ?y)))))"
    by (simp add: cleanTextForTTS_def)
  also have "\<dots> = ?y"
    unfolding s1 assms s3 s4 s5 s6 ..
  finally show ?thesis .
qed

text \<open>A text without an opening square bracket holds no link, before and after
  normalization, so on such texts the normalization is idempotent.\<close>

lemma strip_links_from_no_bracket: "0x5B \<notin> set s \<Longrightarrow> strip_links_from 0 s = s"
  by (induction s) simp_all

lemma cleanTextForTTS_keeps_no_bracket:
  assumes "0x5B \<notin> set x"
  shows "0x5B \<notin> set (cleanTextForTTS x)"
proof -
  let ?a = "strip_markdown_symbols x"
  let ?b = "strip_markdown_links ?a"
  let ?c = "replace_multiple_newlines ?b"
  let ?d = "replace_bullet_points ?c"
  let ?e = "normalize_whitespace ?d"
  have a: "0x5B \<notin> set ?a" using assms by (simp add: strip_markdown_symbols_def)
  have b: "0x5B \<notin> set ?b"
    using a set_strip_links_from [of 0 ?a] unfolding strip_markdown_links_def by blast
  have c: "0x5B \<notin> set ?c"
  proof
    assume "0x5B \<in> set ?c"
    with set_replace_multiple_newlines [of ?b] have "0x5B \<in> insert 0x2E (insert 0x20 (set ?b))"
      by blast
    with b show False by simp
  qed
  have d: "0x5B \<notin> set ?d"
  proof
    assume "0x5B \<in> set ?d"
    with set_replace_bullet_points [of ?c] have "0x5B \<in> insert 0x2C (insert 0x20 (set ?c))"
      by blast
    with c show False by simp
  qed
  have e: "0x5B \<notin> set ?e"
  proof
    assume "0x5B \<in> set ?e"
    with set_normalize_whitespace [of ?d] have "0x5B \<in> insert 0x20 {c \<in> set ?d. \<not> is_ws c}"
      by blast
    with d show False by simp
  qed
  show ?thesis
    using e set_trim [of ?e] unfolding cleanTextForTTS_def by blast
qed

lemma cleanTextForTTS_idempotent_no_bracket:
  assumes "0x5B \<notin> set x"
  shows "cleanTextForTTS (cleanTextForTTS x) = cleanTextForTTS x"
proof (rule cleanTextForTTS_fixed_if_no_link_left)
  from assms have "0x5B \<notin> set (cleanTextForTTS x)" by (rule cleanTextForTTS_keeps_no_bracket)
  then show "strip_markdown_links (cleanTextForTTS x) = cleanTextForTTS x"
    unfolding strip_markdown_links_def by (rule strip_links_from_no_bracket)
qed

lemmas clean_eval = js_def cleanTextForTTS_def strip_markdown_symbols_def strip_markdown_links_def
  is_markdown_symbol_def is_bullet_def is_ws_def is_line_terminator_def trim_def

text \<open>
  Claim C2. The normalization is meant to be idempotent, and the code falls short of
  it on the seven units \<^verbatim>\<open>[a\n](b)\<close>, an inline link whose label holds a line feed.
  The dot of the link pattern \<^verbatim>\<open>\[.*?\]\(.*?\)\<close> matches no line terminator, so the
  step the code calls "Strip markdown links" leaves this link in place; the later
  white-space step turns the line feed into a space, and the first pass returns
  \<^verbatim>\<open>[a ](b)\<close>. A second pass strips that as a link and returns the empty string:
  applying the normalization twice does not give what applying it once gives.
\<close>

theorem cleanTextForTTS_not_idempotent:
  "cleanTextForTTS [0x5B, 0x61, 0x0A, 0x5D, 0x28, 0x62, 0x29] = js ''[a ](b)'' \<and>
   cleanTextForTTS (cleanTextForTTS [0x5B, 0x61, 0x0A, 0x5D, 0x28, 0x62, 0x29]) = [] \<and>
   cleanTextForTTS (cleanTextForTTS [0x5B, 0x61, 0x0A, 0x5D, 0x28, 0x62, 0x29])
     \<noteq> cleanTextForTTS [0x5B, 0x61, 0x0A, 0x5D, 0x28, 0x62, 0x29]"
  by (simp add: clean_eval)

section \<open>Properties of generateTTS\<close>

lemma then_do_simps [simp]:
  "then_do (Inl e) f = Inl e" "then_do (Inr v) f = f v"
  by (simp_all add: then_do_def)

lemma then_do_eq_Inr: "then_do r f = Inr y \<longleftrightarrow> (\<exists>v. r = Inr v \<and> f v = Inr y)"
  by (cases r) simp_all

lemma int16_le_range: "lo < 256 \<Longrightarrow> hi < 256 \<Longrightarrow> - 32768 \<le> int16_le lo hi \<and> int16_le lo hi \<le> 32767"
  by (simp add: int16_le_def Let_def)

lemma int16_pairs_range:
  "\<forall>b\<in>set bs. b < 256 \<Longrightarrow> \<forall>x\<in>set (int16_pairs bs). - 32768 \<le> x \<and> x \<le> 32767"
  by (induction bs rule: int16_pairs.induct) (simp_all add: int16_le_range)

lemma length_int16_pairs: "length (int16_pairs bs) = length bs div 2"
  by (induction bs rule: int16_pairs.induct) simp_all

lemma generateTTS_try_Inr:
  "generateTTS_try atob generateContent text mode = Inr samples \<longleftrightarrow>
   (\<exists>base64Audio binaryString.
      generateContent (tts_request_of text mode) = Resolved (Some base64Audio) \<and>
      base64Audio \<noteq> [] \<and> atob base64Audio = Inr binaryString \<and> even (length binaryString) \<and>
      samples = map (\<lambda>x. real_of_int x / 32768) (int16_pairs (map (\<lambda>c. c mod 256) binaryString)))"
proof (cases "generateContent (tts_request_of text mode)")
  case (Rejected e)
  then show ?thesis by (simp add: generateTTS_try_def)
next
  case (Resolved d)
  show ?thesis
  proof (cases "d = None \<or> d = Some []")
    case True
    with Resolved show ?thesis by (auto simp: generateTTS_try_def)
  next
    case False
    then obtain b where b: "d = Some b" "b \<noteq> []" by auto
    show ?thesis
    proof (cases "atob b")
      case (Inl e)
      with Resolved b show ?thesis
        by (simp add: generateTTS_try_def decodeBase64_def)
    next
      case (Inr bin)
      with Resolved b show ?thesis
        by (auto simp: generateTTS_try_def decodeBase64_def Int16Array_def)
    qed
  qed
qed

lemma generateTTS_Inr:
  "generateTTS atob generateContent text mode = Inr samples \<longleftrightarrow>
   generateTTS_try atob generateContent text mode = Inr samples"
  by (cases "generateTTS_try atob generateContent text mode") (simp_all add: generateTTS_def)

lemma int16_pairs_nth:
  "2 * i + 1 < length bs \<Longrightarrow> int16_pairs bs ! i = int16_le (bs ! (2 * i)) (bs ! (2 * i + 1))"
proof (induction bs arbitrary: i rule: int16_pairs.induct)
  case (1 lo hi rest)
  show ?case
  proof (cases i)
    case 0
    then show ?thesis by simp
  next
    case (Suc k)
    with "1.prems" have "2 * k + 1 < length rest" by simp
    from "1.IH" [OF this] Suc show ?thesis by simp
  qed
qed simp_all

text \<open>
  Claim C7. A call of \<open>generateTTS\<close> that returns has read a payload and decoded it
  with \<^verbatim>\<open>atob\<close> to twice as many bytes as it returns samples; sample \<open>i\<close> is the
  byte at \<open>2 i\<close> plus 256 times the byte at \<open>2 i + 1\<close> (little-endian), less 65536
  when that is 32768 or more (signed, two's complement), divided by 32768; and every
  sample lies between \<open>-1\<close> and \<open>32767 / 32768\<close>.
\<close>

theorem generateTTS_decodes_in_range:
  assumes "generateTTS atob generateContent text mode = Inr samples"
  shows "\<exists>base64Audio binaryString.
      generateContent (tts_request_of text mode) = Resolved (Some base64Audio) \<and>
      atob base64Audio = Inr binaryString \<and>
      length binaryString = 2 * length samples \<and>
      (\<forall>i<length samples. samples ! i =
         real_of_int (let u = int (binaryString ! (2 * i) mod 256)
                                + 256 * int (binaryString ! (2 * i + 1) mod 256)
                      in if u < 32768 then u else u - 65536) / 32768) \<and>
      (\<forall>s\<in>set samples. - 1 \<le> s \<and> s \<le> 32767 / 32768)"
proof -
  from assms obtain base64Audio binaryString where
    r: "generateContent (tts_request_of text mode) = Resolved (Some base64Audio)"
    and a: "atob base64Audio = Inr binaryString"
    and e: "even (length binaryString)"
    and s: "samples = map (\<lambda>x. real_of_int x / 32768) (int16_pairs (map (\<lambda>c. c mod 256) binaryString))"
    unfolding generateTTS_Inr generateTTS_try_Inr by blast
  let ?bytes = "map (\<lambda>c. c mod 256) binaryString"
  have n: "length samples = length binaryString div 2"
    by (simp add: s length_int16_pairs)
  with e have len: "length binaryString = 2 * length samples" by auto
  have nth: "\<forall>i<length samples. samples ! i =
         real_of_int (let u = int (binaryString ! (2 * i) mod 256)
                                + 256 * int (binaryString ! (2 * i + 1) mod 256)
                      in if u < 32768 then u else u - 65536) / 32768"
  proof (intro allI impI)
    fix i assume i: "i < length samples"
    then have b: "2 * i + 1 < length ?bytes" "2 * i < length binaryString"
      "2 * i + 1 < length binaryString" using len by simp_all
    from i have "samples ! i = real_of_int (int16_pairs ?bytes ! i) / 32768"
      by (simp add: s length_int16_pairs)
    also have "int16_pairs ?bytes ! i = int16_le (?bytes ! (2 * i)) (?bytes ! (2 * i + 1))"
      using b(1) by (rule int16_pairs_nth)
    also have "\<dots> = (let u = int (binaryString ! (2 * i) mod 256)
                                + 256 * int (binaryString ! (2 * i + 1) mod 256)
                      in if u < 32768 then u else u - 65536)"
      using b(2,3) by (simp add: int16_le_def)
    finally show "samples ! i =
         real_of_int (let u = int (binaryString ! (2 * i) mod 256)
                                + 256 * int (binaryString ! (2 * i + 1) mod 256)
                      in if u < 32768 then u else u - 65536) / 32768" .
  qed
  have "\<forall>b\<in>set ?bytes. b < 256" by simp
  then have range: "\<forall>x\<in>set (int16_pairs ?bytes). - 32768 \<le> x \<and> x \<le> 32767"
    by (rule int16_pairs_range)
  have bound: "\<forall>s\<in>set samples. - 1 \<le> s \<and> s \<le> 32767 / 32768"
  proof
    fix y assume "y \<in> set samples"
    then obtain x where x: "x \<in> set (int16_pairs ?bytes)"
      and y: "y = real_of_int x / 32768" unfolding s by auto
    from range x have "- 32768 \<le> x" "x \<le> 32767" by simp_all
    then have "- 32768 \<le> real_of_int x" "real_of_int x \<le> 32767" by linarith+
    then show "- 1 \<le> y \<and> y \<le> 32767 / 32768" unfolding y by (simp add: field_simps)
  qed
  from r a len nth bound show ?thesis by blast
qed

lemmas tts_eval = generateTTS_def generateTTS_try_def decodeBase64_def Int16Array_def int16_le_def
  atob_html_def strip_padding_def base64_value_def answering_def rejecting_def Error_def
  quota_signal_def is_quota_error_def js_def

theorem generateTTS_decodes_in_range_witness:
  "atob_html (js ''AQAAAf//AIA='') = Inr [1, 0, 0, 1, 255, 255, 0, 128] \<and>
   generateTTS atob_html (answering (Some (js ''AQAAAf//AIA=''))) (js ''Hi.'') STUDY
     = Inr [1 / 32768, 256 / 32768, - 1 / 32768, - 1] \<and>
   [1 / 32768, 256 / 32768, - 1 / 32768, - 1 :: real] ! 1
     = real_of_int (let u = int ([1, 0, 0, 1, 255, 255, 0, 128] ! (2 * 1) mod 256)
                            + 256 * int ([1, 0, 0, 1, 255, 255, 0, 128] ! (2 * 1 + 1) mod 256)
                    in if u < 32768 then u else u - 65536) / 32768 \<and>
   [1 / 32768, 256 / 32768, - 1 / 32768, - 1 :: real] ! 2
     = real_of_int (let u = int ([1, 0, 0, 1, 255, 255, 0, 128] ! (2 * 2) mod 256)
                            + 256 * int ([1, 0, 0, 1, 255, 255, 0, 128] ! (2 * 2 + 1) mod 256)
                    in if u < 32768 then u else u - 65536) / 32768 \<and>
   - 1 \<le> (- 1 :: real) \<and> (256 / 32768 :: real) \<le> 32767 / 32768"
proof -
  let ?g = "answering (Some (js ''AQAAAf//AIA=''))"
  let ?s = "[1 / 32768, 256 / 32768, - 1 / 32768, - 1 :: real]"
  let ?b = "[1, 0, 0, 1, 255, 255, 0, 128 :: nat]"
  have d: "atob_html (js ''AQAAAf//AIA='') = Inr ?b"
    by (simp add: tts_eval)
  have v: "generateTTS atob_html ?g (js ''Hi.'') STUDY = Inr ?s"
    by (simp add: tts_eval)
  from generateTTS_decodes_in_range [OF v] obtain base64Audio binaryString where
    r: "?g (tts_request_of (js ''Hi.'') STUDY) = Resolved (Some base64Audio)"
    and a: "atob_html base64Audio = Inr binaryString"
    and nth: "\<forall>i<length ?s. ?s ! i =
         real_of_int (let u = int (binaryString ! (2 * i) mod 256)
                                + 256 * int (binaryString ! (2 * i + 1) mod 256)
                      in if u < 32768 then u else u - 65536) / 32768"
    and bound: "\<forall>s\<in>set ?s. - 1 \<le> s \<and> s \<le> 32767 / 32768"
    by blast
  from r have "base64Audio = js ''AQAAAf//AIA=''" by (simp add: answering_def)
  with a d have bin: "binaryString = ?b" by simp
  have "1 < length ?s" "2 < length ?s" by simp_all
  with nth have n1: "?s ! 1 =
         real_of_int (let u = int (?b ! (2 * 1) mod 256) + 256 * int (?b ! (2 * 1 + 1) mod 256)
                      in if u < 32768 then u else u - 65536) / 32768"
    and n2: "?s ! 2 =
         real_of_int (let u = int (?b ! (2 * 2) mod 256) + 256 * int (?b ! (2 * 2 + 1) mod 256)
                      in if u < 32768 then u else u - 65536) / 32768"
    unfolding bin by blast+
  from bound have b1: "- 1 \<le> (- 1 :: real)" and b2: "(256 / 32768 :: real) \<le> 32767 / 32768"
    by simp_all
  from d v n1 n2 b1 b2 show ?thesis by (intro conjI)
qed

lemma no_quota_in_range_error:
  "\<not> quota_signal (Error ''byte length of Int16Array should be a multiple of 2'')"
  by (simp add: quota_signal_def Error_def js_def)

lemma range_error_not_quota_error:
  "\<not> is_quota_error (Error ''byte length of Int16Array should be a multiple of 2'')"
  by (simp add: is_quota_error_def Error_def js_def)

text \<open>
  Claim C10. When the payload decodes to an odd number of bytes, building the 16-bit
  view throws, and \<open>generateTTS\<close> passes that \<^verbatim>\<open>RangeError\<close> on as it is, a
  generic error and not the quota error; when it decodes to \<open>2 k\<close> bytes, the buffer
  returned has exactly \<open>k\<close> samples.
\<close>

theorem generateTTS_payload_length:
  assumes "generateContent (tts_request_of text mode) = Resolved (Some base64Audio)"
    and "base64Audio \<noteq> []"
    and "atob base64Audio = Inr binaryString"
  shows "(odd (length binaryString) \<longrightarrow>
      generateTTS atob generateContent text mode
        = Inl (Error ''byte length of Int16Array should be a multiple of 2'') \<and>
      \<not> is_quota_error (Error ''byte length of Int16Array should be a multiple of 2'')) \<and>
    (\<forall>k. length binaryString = 2 * k \<longrightarrow>
      (\<exists>samples. generateTTS atob generateContent text mode = Inr samples \<and> length samples = k))"
proof (intro conjI allI impI)
  assume "odd (length binaryString)"
  with assms have "generateTTS_try atob generateContent text mode
      = Inl (Error ''byte length of Int16Array should be a multiple of 2'')"
    by (simp add: generateTTS_try_def decodeBase64_def Int16Array_def)
  then show "generateTTS atob generateContent text mode
      = Inl (Error ''byte length of Int16Array should be a multiple of 2'')"
    using no_quota_in_range_error by (simp add: generateTTS_def)
next
  show "\<not> is_quota_error (Error ''byte length of Int16Array should be a multiple of 2'')"
    by (rule range_error_not_quota_error)
next
  fix k assume k: "length binaryString = 2 * k"
  let ?samples = "map (\<lambda>x. real_of_int x / 32768) (int16_pairs (map (\<lambda>c. c mod 256) binaryString))"
  from k assms have "generateTTS_try atob generateContent text mode = Inr ?samples"
    unfolding generateTTS_try_Inr by simp
  then have "generateTTS atob generateContent text mode = Inr ?samples"
    unfolding generateTTS_Inr .
  moreover have "length ?samples = k" using k by (simp add: length_int16_pairs)
  ultimately show "\<exists>samples. generateTTS atob generateContent text mode = Inr samples \<and> length samples = k"
    by blast
qed

theorem generateTTS_payload_length_witness:
  "answering (Some (js ''AAAA'')) (tts_request_of (js ''Hi.'') STUDY) = Resolved (Some (js ''AAAA'')) \<and>
   js ''AAAA'' \<noteq> [] \<and> atob_html (js ''AAAA'') = Inr [0, 0, 0] \<and> odd (length [0, 0, 0 :: nat]) \<and>
   generateTTS atob_html (answering (Some (js ''AAAA''))) (js ''Hi.'') STUDY
     = Inl (Error ''byte length of Int16Array should be a multiple of 2'') \<and>
   answering (Some (js ''AID/fw=='')) (tts_request_of (js ''Hi.'') STUDY) = Resolved (Some (js ''AID/fw=='')) \<and>
   js ''AID/fw=='' \<noteq> [] \<and> atob_html (js ''AID/fw=='') = Inr [0, 128, 255, 127] \<and>
   length [0, 128, 255, 127 :: nat] = 2 * 2 \<and>
   (\<exists>samples. generateTTS atob_html (answering (Some (js ''AID/fw==''))) (js ''Hi.'') STUDY = Inr samples
      \<and> length samples = 2)"
proof -
  have a1: "answering (Some (js ''AAAA'')) (tts_request_of (js ''Hi.'') STUDY) = Resolved (Some (js ''AAAA''))"
    by (simp add: answering_def)
  have a2: "js ''AAAA'' \<noteq> []" by (simp add: js_def)
  have a3: "atob_html (js ''AAAA'') = Inr [0, 0, 0]" by (simp add: tts_eval)
  have b1: "answering (Some (js ''AID/fw=='')) (tts_request_of (js ''Hi.'') STUDY) = Resolved (Some (js ''AID/fw==''))"
    by (simp add: answering_def)
  have b2: "js ''AID/fw=='' \<noteq> []" by (simp add: js_def)
  have b3: "atob_html (js ''AID/fw=='') = Inr [0, 128, 255, 127]" by (simp add: tts_eval)
  have odd3: "odd (length [0, 0, 0 :: nat])" by simp
  have len4: "length [0, 128, 255, 127 :: nat] = 2 * 2" by simp
  from generateTTS_payload_length [of "answering (Some (js ''AAAA''))" _ _ _ atob_html, OF a1 a2 a3] odd3
  have c1: "generateTTS atob_html (answering (Some (js ''AAAA''))) (js ''Hi.'') STUDY
     = Inl (Error ''byte length of Int16Array should be a multiple of 2'')" by blast
  from generateTTS_payload_length [of "answering (Some (js ''AID/fw==''))" _ _ _ atob_html, OF b1 b2 b3] len4
  have c2: "\<exists>samples. generateTTS atob_html (answering (Some (js ''AID/fw==''))) (js ''Hi.'') STUDY = Inr samples
      \<and> length samples = 2" by blast
  from a1 a2 a3 odd3 c1 b1 b2 b3 len4 c2 show ?thesis by (intro conjI)
qed

lemma quota_full_is_quota_error: "is_quota_error (Error ''QUOTA_FULL'')"
  by (simp add: is_quota_error_def Error_def)

lemma no_audio_not_quota:
  "\<not> quota_signal (Error ''No audio data received'')"
  "\<not> is_quota_error (Error ''No audio data received'')"
  by (simp_all add: quota_signal_def is_quota_error_def Error_def js_def)

text \<open>
  Claim C1, as the code has it. Whatever the \<^verbatim>\<open>try\<close> block throws (the rejection
  of the remote call, the "no audio data" error, a decoding error), \<open>generateTTS\<close>
  throws the distinguished error, whose message is \<^verbatim>\<open>QUOTA_FULL\<close>, when the value
  thrown has a message containing \<^verbatim>\<open>quota\<close> or the status 429, and throws the very
  same value again otherwise. The caller tells the two apart by the message alone, so the
  error thrown in the second case is a non-quota error whenever its own message is not
  \<^verbatim>\<open>QUOTA_FULL\<close>; the error for a response without audio payload is one of these.
\<close>

theorem generateTTS_quota_or_rethrow:
  "(generateTTS_try atob generateContent text mode = Inl e \<and> quota_signal e \<longrightarrow>
      generateTTS atob generateContent text mode = Inl (Error ''QUOTA_FULL'') \<and>
      is_quota_error (Error ''QUOTA_FULL'')) \<and>
   (generateContent (tts_request_of text mode) = Rejected e \<and> status e = Some 429 \<longrightarrow>
      generateTTS atob generateContent text mode = Inl (Error ''QUOTA_FULL'')) \<and>
   (generateTTS_try atob generateContent text mode = Inl e \<and> \<not> quota_signal e \<longrightarrow>
      generateTTS atob generateContent text mode = Inl e \<and>
      (message e \<noteq> Some (js ''QUOTA_FULL'') \<longrightarrow> \<not> is_quota_error e)) \<and>
   (generateContent (tts_request_of text mode) = Resolved None
      \<or> generateContent (tts_request_of text mode) = Resolved (Some []) \<longrightarrow>
      generateTTS atob generateContent text mode = Inl (Error ''No audio data received'') \<and>
      \<not> is_quota_error (Error ''No audio data received''))"
proof (intro conjI impI)
  assume "generateTTS_try atob generateContent text mode = Inl e \<and> quota_signal e"
  then show "generateTTS atob generateContent text mode = Inl (Error ''QUOTA_FULL'')"
    by (simp add: generateTTS_def)
next
  show "is_quota_error (Error ''QUOTA_FULL'')" by (rule quota_full_is_quota_error)
next
  assume "generateContent (tts_request_of text mode) = Rejected e \<and> status e = Some 429"
  then have "generateTTS_try atob generateContent text mode = Inl e" "quota_signal e"
    by (simp_all add: generateTTS_try_def quota_signal_def)
  then show "generateTTS atob generateContent text mode = Inl (Error ''QUOTA_FULL'')"
    by (simp add: generateTTS_def)
next
  assume "generateTTS_try atob generateContent text mode = Inl e \<and> \<not> quota_signal e"
  then show "generateTTS atob generateContent text mode = Inl e"
    by (simp add: generateTTS_def)
next
  assume "message e \<noteq> Some (js ''QUOTA_FULL'')"
  then show "\<not> is_quota_error e" by (simp add: is_quota_error_def)
next
  assume "generateContent (tts_request_of text mode) = Resolved None
      \<or> generateContent (tts_request_of text mode) = Resolved (Some [])"
  then have "generateTTS_try atob generateContent text mode = Inl (Error ''No audio data received'')"
    by (auto simp: generateTTS_try_def)
  then show "generateTTS atob generateContent text mode = Inl (Error ''No audio data received'')"
    using no_audio_not_quota(1) by (simp add: generateTTS_def)
next
  show "\<not> is_quota_error (Error ''No audio data received'')" by (rule no_audio_not_quota(2))
qed

lemmas err_eval = too_many_requests_def quota_message_def server_error_def quota_full_lookalike_def

theorem generateTTS_quota_or_rethrow_witness:
  "generateTTS atob_html (rejecting too_many_requests) (js ''Hi.'') STUDY = Inl (Error ''QUOTA_FULL'') \<and>
   generateTTS atob_html (rejecting quota_message) (js ''Hi.'') STUDY = Inl (Error ''QUOTA_FULL'') \<and>
   generateTTS atob_html (rejecting server_error) (js ''Hi.'') STUDY = Inl server_error \<and>
   \<not> is_quota_error server_error \<and>
   generateTTS atob_html (answering None) (js ''Hi.'') STUDY = Inl (Error ''No audio data received'')"
proof -
  have t1: "generateTTS_try atob_html (rejecting too_many_requests) (js ''Hi.'') STUDY = Inl too_many_requests"
    and r1: "rejecting too_many_requests (tts_request_of (js ''Hi.'') STUDY) = Rejected too_many_requests"
    and s1: "status too_many_requests = Some 429"
    by (simp_all add: generateTTS_try_def rejecting_def err_eval)
  have t2: "generateTTS_try atob_html (rejecting quota_message) (js ''Hi.'') STUDY = Inl quota_message"
    and q2: "quota_signal quota_message"
    by (simp_all add: generateTTS_try_def rejecting_def err_eval quota_signal_def js_def)
  have t3: "generateTTS_try atob_html (rejecting server_error) (js ''Hi.'') STUDY = Inl server_error"
    and q3: "\<not> quota_signal server_error"
    and m3: "message server_error \<noteq> Some (js ''QUOTA_FULL'')"
    by (simp_all add: generateTTS_try_def rejecting_def err_eval quota_signal_def js_def)
  have r4: "answering None (tts_request_of (js ''Hi.'') STUDY) = Resolved None"
    by (simp add: answering_def)
  note a = generateTTS_quota_or_rethrow [of atob_html "rejecting too_many_requests" "js ''Hi.''" STUDY too_many_requests]
  note b = generateTTS_quota_or_rethrow [of atob_html "rejecting quota_message" "js ''Hi.''" STUDY quota_message]
  note c = generateTTS_quota_or_rethrow [of atob_html "rejecting server_error" "js ''Hi.''" STUDY server_error]
  note d = generateTTS_quota_or_rethrow [of atob_html "answering None" "js ''Hi.''" STUDY server_error]
  from a r1 s1 have "generateTTS atob_html (rejecting too_many_requests) (js ''Hi.'') STUDY = Inl (Error ''QUOTA_FULL'')"
    by blast
  moreover from b t2 q2 have "generateTTS atob_html (rejecting quota_message) (js ''Hi.'') STUDY = Inl (Error ''QUOTA_FULL'')"
    by blast
  moreover from c t3 q3 m3 have "generateTTS atob_html (rejecting server_error) (js ''Hi.'') STUDY = Inl server_error"
    "\<not> is_quota_error server_error"
    by blast+
  moreover from d r4 have "generateTTS atob_html (answering None) (js ''Hi.'') STUDY = Inl (Error ''No audio data received'')"
    by blast
  ultimately show ?thesis by (intro conjI)
qed

text \<open>
  The claim as the specification words it fails for a rejection whose own message is
  \<^verbatim>\<open>QUOTA_FULL\<close> and whose status is 500: it carries no quota signal (the search for
  \<^verbatim>\<open>quota\<close> is case-sensitive), it is thrown again as it is, and the caller's test
  \<^verbatim>\<open>err.message === 'QUOTA_FULL'\<close> takes it for the quota error.
\<close>

theorem generateTTS_rethrow_counterexample:
  "\<not> quota_signal quota_full_lookalike \<and>
   generateTTS atob_html (rejecting quota_full_lookalike) (js ''Hi.'') STUDY = Inl quota_full_lookalike \<and>
   is_quota_error quota_full_lookalike"
  by (simp add: generateTTS_def generateTTS_try_def rejecting_def err_eval quota_signal_def
      is_quota_error_def js_def)

section \<open>Properties of pcmToWav\<close>

subsection \<open>Writing into the zeroed rest of a buffer\<close>

lemma length_le16 [simp]: "length (le16 v) = 2"
  by (simp add: le16_def)

lemma length_le32 [simp]: "length (le32 v) = 4"
  by (simp add: le32_def)

lemma length_js [simp]: "length (js s) = length s"
  by (simp add: js_def)

lemma js_unit_bound: "c \<in> set (js s) \<Longrightarrow> c < 256"
proof -
  assume "c \<in> set (js s)"
  then obtain ch where "c = of_char ch" by (auto simp: js_def)
  then show ?thesis by (simp add: of_char_def)
qed

lemma setUint8_fresh:
  assumes "length p = off" and "1 \<le> m" and "c < 256"
  shows "setUint8 (p @ replicate m 0) off (int c) = Inr ((p @ [c]) @ replicate (m - 1) 0)"
proof -
  from assms(2) obtain k where m: "m = Suc k" by (cases m) auto
  have "nat (int c mod 256) = c" using assms(3) by simp
  then show ?thesis
    using assms(1) by (simp add: setUint8_def m list_update_append)
qed

lemma writeString_fresh:
  "length p = off \<Longrightarrow> length s \<le> m \<Longrightarrow> \<forall>c\<in>set s. c < 256 \<Longrightarrow>
   writeString (p @ replicate m 0) off s = Inr ((p @ s) @ replicate (m - length s) 0)"
proof (induction s arbitrary: p off m)
  case Nil
  then show ?case by simp
next
  case (Cons c cs)
  from Cons.prems have c: "c < 256" and m: "1 \<le> m" by auto
  have "writeString (p @ replicate m 0) off (c # cs)
      = writeString ((p @ [c]) @ replicate (m - 1) 0) (off + 1) cs"
    using setUint8_fresh [OF Cons.prems(1) m c] by simp
  also have "\<dots> = Inr (((p @ [c]) @ cs) @ replicate (m - 1 - length cs) 0)"
    using Cons.prems by (intro Cons.IH) auto
  finally show ?case by simp
qed

lemma setUint16_fresh:
  assumes "length p = off" and "2 \<le> m"
  shows "setUint16 (p @ replicate m 0) off v = Inr ((p @ le16 v) @ replicate (m - 2) 0)"
proof -
  from assms(2) obtain k where m: "m = Suc (Suc k)" by (cases m rule: nat.exhaust; cases "m - 1") auto
  show ?thesis
    using assms(1) by (simp add: setUint16_def m list_update_append le16_def)
qed

lemma setUint32_fresh:
  assumes "length p = off" and "4 \<le> m"
  shows "setUint32 (p @ replicate m 0) off v = Inr ((p @ le32 v) @ replicate (m - 4) 0)"
proof -
  from assms(2) have "m = Suc (Suc (Suc (Suc (m - 4))))" by simp
  then obtain k where m: "m = Suc (Suc (Suc (Suc k)))" ..
  show ?thesis
    using assms(1) by (simp add: setUint32_def m list_update_append le32_def)
qed

lemma le16_mod: "le16 (t mod 65536) = le16 t"
proof -
  have "t mod 65536 mod 256 = t mod 256"
    by (rule mod_mod_cancel) simp
  moreover have "(t mod 65536) div 256 mod 256 = t div 256 mod 256"
  proof -
    have "t mod (256 * 256) = 256 * (t div 256 mod 256) + t mod 256"
      by (rule zmod_zmult2_eq) simp
    then have "t mod 65536 = t mod 256 + 256 * (t div 256 mod 256)" by simp
    then have "(t mod 65536) div 256 = t div 256 mod 256" by simp
    then show ?thesis by simp
  qed
  ultimately show ?thesis by (simp add: le16_def)
qed

lemma setInt16_fresh:
  "length p = off \<Longrightarrow> 2 \<le> m \<Longrightarrow>
   setInt16 (p @ replicate m 0) off x = Inr ((p @ le16 (trunc_toward_zero x)) @ replicate (m - 2) 0)"
  by (simp add: setInt16_def setUint16_fresh le16_mod)

lemma write_samples_fresh:
  "length p = off \<Longrightarrow> m = 2 * length xs \<Longrightarrow>
   write_samples (p @ replicate m 0) off xs = Inr (p @ concat (map sample_bytes xs))"
proof (induction xs arbitrary: p off m)
  case Nil
  then show ?case by simp
next
  case (Cons x xs)
  from Cons.prems have m: "2 \<le> m" by simp
  have "write_samples (p @ replicate m 0) off (x # xs)
      = write_samples ((p @ sample_bytes x) @ replicate (m - 2) 0) (off + 2) xs"
    using setInt16_fresh [OF Cons.prems(1) m] by (simp add: sample_bytes_def)
  also have "\<dots> = Inr ((p @ sample_bytes x) @ concat (map sample_bytes xs))"
    using Cons.prems by (intro Cons.IH) (auto simp: sample_bytes_def)
  finally show ?case by simp
qed

subsection \<open>The layout\<close>

lemma pcmToWav_layout:
  "pcmToWav pcmData sampleRate =
     Inr \<lparr>blob_data = wav_header (length pcmData) sampleRate @ concat (map sample_bytes pcmData),
          blob_type = ''audio/wav''\<rparr>"
proof -
  define n where "n = length pcmData"
  let ?z = "\<lambda>k. replicate k (0 :: nat)"
  let ?p1 = "[] @ js ''RIFF''"
  let ?p2 = "?p1 @ le32 (36 + int n * 2)"
  let ?p3 = "?p2 @ js ''WAVE''"
  let ?p4 = "?p3 @ js ''fmt ''"
  let ?p5 = "?p4 @ le32 16"
  let ?p6 = "?p5 @ le16 1"
  let ?p7 = "?p6 @ le16 1"
  let ?p8 = "?p7 @ le32 sampleRate"
  let ?p9 = "?p8 @ le32 (sampleRate * 2)"
  let ?p10 = "?p9 @ le16 2"
  let ?p11 = "?p10 @ le16 16"
  let ?p12 = "?p11 @ js ''data''"
  let ?p13 = "?p12 @ le32 (int n * 2)"
  have "writeString ([] @ ?z (44 + n * 2)) 0 (js ''RIFF'') = Inr (?p1 @ ?z (40 + n * 2))"
    using writeString_fresh [of "[]" 0 "js ''RIFF''" "44 + n * 2"] js_unit_bound by simp
  then have s1: "writeString (?z (44 + n * 2)) 0 (js ''RIFF'') = Inr (?p1 @ ?z (40 + n * 2))"
    by (simp only: append_Nil)
  have s2: "setUint32 (?p1 @ ?z (40 + n * 2)) 4 v = Inr ((?p1 @ le32 v) @ ?z (36 + n * 2))" for v
    using setUint32_fresh [of ?p1 4 "40 + n * 2" v] by simp
  have s3: "writeString (?p2 @ ?z (36 + n * 2)) 8 (js ''WAVE'') = Inr (?p3 @ ?z (32 + n * 2))"
    using writeString_fresh [of ?p2 8 "js ''WAVE''" "36 + n * 2"] js_unit_bound by simp
  have s4: "writeString (?p3 @ ?z (32 + n * 2)) 12 (js ''fmt '') = Inr (?p4 @ ?z (28 + n * 2))"
    using writeString_fresh [of ?p3 12 "js ''fmt ''" "32 + n * 2"] js_unit_bound by simp
  have s5: "setUint32 (?p4 @ ?z (28 + n * 2)) 16 v = Inr ((?p4 @ le32 v) @ ?z (24 + n * 2))" for v
    using setUint32_fresh [of ?p4 16 "28 + n * 2" v] by simp
  have s6: "setUint16 (?p5 @ ?z (24 + n * 2)) 20 v = Inr ((?p5 @ le16 v) @ ?z (22 + n * 2))" for v
    using setUint16_fresh [of ?p5 20 "24 + n * 2" v] by simp
  have s7: "setUint16 (?p6 @ ?z (22 + n * 2)) 22 v = Inr ((?p6 @ le16 v) @ ?z (20 + n * 2))" for v
    using setUint16_fresh [of ?p6 22 "22 + n * 2" v] by simp
  have s8: "setUint32 (?p7 @ ?z (20 + n * 2)) 24 v = Inr ((?p7 @ le32 v) @ ?z (16 + n * 2))" for v
    using setUint32_fresh [of ?p7 24 "20 + n * 2" v] by simp
  have s9: "setUint32 (?p8 @ ?z (16 + n * 2)) 28 v = Inr ((?p8 @ le32 v) @ ?z (12 + n * 2))" for v
    using setUint32_fresh [of ?p8 28 "16 + n * 2" v] by simp
  have s10: "setUint16 (?p9 @ ?z (12 + n * 2)) 32 v = Inr ((?p9 @ le16 v) @ ?z (10 + n * 2))" for v
    using setUint16_fresh [of ?p9 32 "12 + n * 2" v] by simp
  have s11: "setUint16 (?p10 @ ?z (10 + n * 2)) 34 v = Inr ((?p10 @ le16 v) @ ?z (8 + n * 2))" for v
    using setUint16_fresh [of ?p10 34 "10 + n * 2" v] by simp
  have s12: "writeString (?p11 @ ?z (8 + n * 2)) 36 (js ''data'') = Inr (?p12 @ ?z (4 + n * 2))"
    using writeString_fresh [of ?p11 36 "js ''data''" "8 + n * 2"] js_unit_bound by simp
  have s13: "setUint32 (?p12 @ ?z (4 + n * 2)) 40 v = Inr ((?p12 @ le32 v) @ ?z (n * 2))" for v
    using setUint32_fresh [of ?p12 40 "4 + n * 2" v] by simp
  have s14: "write_samples (?p13 @ ?z (n * 2)) 44 pcmData = Inr (?p13 @ concat (map sample_bytes pcmData))"
    by (rule write_samples_fresh) (simp_all add: n_def)
  have h: "?p13 = wav_header n sampleRate"
    by (simp add: wav_header_def)
  note s14' = s14 [unfolded h]
  show ?thesis
    unfolding pcmToWav_def Let_def n_def [symmetric]
    by (simp only: s1 s2 s3 s4 s5 s6 s7 s8 s9 s10 s11 s12 s13 s14' then_do_simps h)
qed

subsection \<open>Reading the fields back\<close>

lemma le32_roundtrip:
  assumes "0 \<le> (v::int)" "v < 4294967296"
  shows "int (nat (v mod 256)) + 256 * int (nat (v div 256 mod 256))
     + 65536 * int (nat (v div 65536 mod 256)) + 16777216 * int (nat (v div 16777216 mod 256)) = v"
proof -
  define q1 where "q1 = v div 256"
  define q2 where "q2 = v div 65536"
  define q3 where "q3 = v div 16777216"
  define a where "a = v mod 256"
  define b where "b = q1 mod 256"
  define c where "c = q2 mod 256"
  have "q3 \<le> 4294967295 div 16777216"
    unfolding q3_def using assms by (intro zdiv_mono1) simp_all
  then have "q3 < 256" by simp
  moreover have q3: "0 \<le> q3" using assms by (simp add: q3_def)
  ultimately have d: "q3 mod 256 = q3" by simp
  have e1: "v = 256 * q1 + a" unfolding q1_def a_def by (rule mult_div_mod_eq [symmetric])
  have e2: "q1 = 256 * (q1 div 256) + b" unfolding b_def by (rule mult_div_mod_eq [symmetric])
  have e3: "q2 = 256 * (q2 div 256) + c" unfolding c_def by (rule mult_div_mod_eq [symmetric])
  have f2: "q1 div 256 = q2" by (simp add: q1_def q2_def div_mult2_eq [symmetric])
  have f3: "q2 div 256 = q3" by (simp add: q2_def q3_def div_mult2_eq [symmetric])
  have nn: "0 \<le> a" "0 \<le> b" "0 \<le> c" by (simp_all add: a_def b_def c_def)
  have sum: "a + 256 * b + 65536 * c + 16777216 * q3 = v"
    using e1 e2 e3 unfolding f2 f3 by linarith
  have na: "int (nat (v mod 256)) = a" using nn(1) by (simp only: a_def int_nat_eq if_True)
  have nb: "int (nat (v div 256 mod 256)) = b"
    using nn(2) by (simp only: b_def q1_def int_nat_eq if_True)
  have nc: "int (nat (v div 65536 mod 256)) = c"
    using nn(3) by (simp only: c_def q2_def int_nat_eq if_True)
  have "0 \<le> q3 mod 256" by simp
  then have nd: "int (nat (v div 16777216 mod 256)) = q3"
    using d by (simp only: q3_def int_nat_eq if_True)
  show ?thesis unfolding na nb nc nd by (rule sum)
qed

lemma le16_roundtrip:
  assumes "0 \<le> (v::int)" "v < 65536"
  shows "int (nat (v mod 256)) + 256 * int (nat (v div 256 mod 256)) = v"
proof -
  define q where "q = v div 256"
  have "q \<le> 65535 div 256" unfolding q_def using assms by (intro zdiv_mono1) simp_all
  then have "q < 256" by simp
  moreover have q: "0 \<le> q" using assms by (simp add: q_def)
  ultimately have d: "q mod 256 = q" by simp
  have na: "int (nat (v mod 256)) = v mod 256" by simp
  have "0 \<le> q mod 256" by simp
  then have nb: "int (nat (v div 256 mod 256)) = q"
    using d by (simp only: q_def int_nat_eq if_True)
  have "256 * q + v mod 256 = v" unfolding q_def by (rule mult_div_mod_eq)
  then show ?thesis unfolding na nb by linarith
qed

lemma int16_le_roundtrip:
  assumes "- 32768 \<le> (t::int)" "t \<le> 32767"
  shows "int16_le (nat (t mod 256)) (nat (t div 256 mod 256)) = t"
proof (cases "0 \<le> t")
  case True
  with assms le16_roundtrip [of t] show ?thesis by (simp add: int16_le_def Let_def)
next
  case False
  define w where "w = t + 256 * 256"
  have w: "0 \<le> w" "w < 65536" "32768 \<le> w" using assms False by (simp_all add: w_def)
  have m: "w mod 256 = t mod 256" unfolding w_def by (rule mod_mult_self2)
  have "w div 256 = 256 + t div 256" unfolding w_def by (rule div_mult_self2) simp
  then have d: "w div 256 mod 256 = t div 256 mod 256" by simp
  from le16_roundtrip [OF w(1,2)] have "int (nat (t mod 256)) + 256 * int (nat (t div 256 mod 256)) = w"
    unfolding m d .
  with w show ?thesis by (simp add: int16_le_def Let_def w_def)
qed

lemma nth_after_prefix: "(p @ q) ! (length p + k) = q ! k"
  by (simp add: nth_append)

lemma nth_after_prefix_0: "(p @ a # q) ! length p = a"
  by simp

lemma nth_after_prefix_1: "(p @ a # b # q) ! (length p + 1) = b"
  using nth_after_prefix [of p "a # b # q" 1] by simp

lemma nth_after_prefix_2: "(p @ a # b # c # q) ! (length p + 2) = c"
  using nth_after_prefix [of p "a # b # c # q" 2] by simp

lemma nth_after_prefix_3: "(p @ a # b # c # d # q) ! (length p + 3) = d"
  using nth_after_prefix [of p "a # b # c # d # q" 3] by simp

lemma getUint32_le32:
  assumes "length p = off" "0 \<le> v" "v < 4294967296"
  shows "getUint32 (p @ le32 v @ r) off = v"
  unfolding getUint32_def assms(1) [symmetric] le32_def append_Cons append_Nil
    nth_after_prefix_0 nth_after_prefix_1 nth_after_prefix_2 nth_after_prefix_3
  by (rule le32_roundtrip [OF assms(2,3)])

lemma getUint16_le16:
  assumes "length p = off" "0 \<le> v" "v < 65536"
  shows "getUint16 (p @ le16 v @ r) off = v"
  unfolding getUint16_def assms(1) [symmetric] le16_def append_Cons append_Nil
    nth_after_prefix_0 nth_after_prefix_1
  by (rule le16_roundtrip [OF assms(2,3)])

lemma getInt16_le16:
  assumes "length p = off" "- 32768 \<le> t" "t \<le> 32767"
  shows "getInt16 (p @ le16 t @ r) off = t"
  unfolding getInt16_def assms(1) [symmetric] le16_def append_Cons append_Nil
    nth_after_prefix_0 nth_after_prefix_1
  by (rule int16_le_roundtrip [OF assms(2,3)])

lemma scale_sample_range: "- 32768 \<le> scale_sample x \<and> scale_sample x \<le> 32767"
  by (auto simp: scale_sample_def Let_def min_def max_def)

lemma trunc_toward_zero_range:
  "- 32768 \<le> y \<Longrightarrow> y \<le> 32767 \<Longrightarrow>
   - 32768 \<le> trunc_toward_zero y \<and> trunc_toward_zero y \<le> 32767"
  unfolding trunc_toward_zero_def by (auto simp: le_floor_iff floor_le_iff ceiling_le_iff le_ceiling_iff)

lemma concat_sample_bytes_split:
  assumes "i < length xs"
  shows "concat (map sample_bytes xs)
     = concat (map sample_bytes (take i xs)) @ sample_bytes (xs ! i) @ concat (map sample_bytes (drop (Suc i) xs))"
proof -
  have "xs = take i xs @ xs ! i # drop (Suc i) xs"
    using assms by (rule id_take_nth_drop)
  then have "concat (map sample_bytes xs)
      = concat (map sample_bytes (take i xs @ xs ! i # drop (Suc i) xs))" by simp
  then show ?thesis by simp
qed

lemma length_concat_sample_bytes: "length (concat (map sample_bytes xs)) = 2 * length xs"
  by (induction xs) (simp_all add: sample_bytes_def)

lemma length_wav_header [simp]: "length (wav_header n sampleRate) = 44"
  by (simp add: wav_header_def)

lemma take_drop_field:
  "length p = off \<Longrightarrow> length m = k \<Longrightarrow> take k (drop off (p @ m @ r)) = m"
  by simp

text \<open>
  Claim C5. For every sample buffer and every sample rate whose header fields fit
  their 32 bits, \<open>pcmToWav\<close> does not throw, and the blob it returns is the 44-byte
  header followed by two bytes a sample: \<^verbatim>\<open>RIFF\<close>, the chunk size
  \<open>36 + 2 n\<close>, \<^verbatim>\<open>WAVE\<close>, \<^verbatim>\<open>fmt \<close>, the format chunk size 16, the PCM
  format code 1, one channel, the sample rate, the byte rate \<open>2 * sampleRate\<close>, the
  block align 2, 16 bits a sample, \<^verbatim>\<open>data\<close>, the data size \<open>2 n\<close>, and then each
  sample clamped to \<open>[-1, 1]\<close>, scaled by 32768 when negative and by 32767 otherwise,
  truncated to a signed 16-bit integer and stored little-endian.
\<close>

theorem pcmToWav_byte_layout:
  assumes "0 \<le> sampleRate" and "sampleRate * 2 < 4294967296"
    and "36 + int (length pcmData) * 2 < 4294967296"
  shows "\<exists>b. pcmToWav pcmData sampleRate = Inr b \<and> blob_type b = ''audio/wav'' \<and>
     blob_data b = wav_header (length pcmData) sampleRate @ concat (map sample_bytes pcmData) \<and>
     length (blob_data b) = 44 + 2 * length pcmData \<and>
     take 4 (blob_data b) = js ''RIFF'' \<and>
     getUint32 (blob_data b) 4 = 36 + 2 * int (length pcmData) \<and>
     take 4 (drop 8 (blob_data b)) = js ''WAVE'' \<and>
     take 4 (drop 12 (blob_data b)) = js ''fmt '' \<and>
     getUint32 (blob_data b) 16 = 16 \<and>
     getUint16 (blob_data b) 20 = 1 \<and>
     getUint16 (blob_data b) 22 = 1 \<and>
     getUint32 (blob_data b) 24 = sampleRate \<and>
     getUint32 (blob_data b) 28 = sampleRate * 2 \<and>
     getUint16 (blob_data b) 32 = 2 \<and>
     getUint16 (blob_data b) 34 = 16 \<and>
     take 4 (drop 36 (blob_data b)) = js ''data'' \<and>
     getUint32 (blob_data b) 40 = 2 * int (length pcmData) \<and>
     (\<forall>i<length pcmData. getInt16 (blob_data b) (44 + 2 * i) =
        trunc_toward_zero (let s = max (- 1) (min 1 (pcmData ! i))
                           in if s < 0 then s * 32768 else s * 32767))"
proof -
  define n where "n = length pcmData"
  define S where "S = concat (map sample_bytes pcmData)"
  define d where "d = wav_header n sampleRate @ S"
  let ?A = "js ''RIFF''" and ?B = "le32 (36 + int n * 2)" and ?C = "js ''WAVE''"
  let ?D = "js ''fmt ''" and ?E = "le32 16" and ?F = "le16 1" and ?G = "le16 1"
  let ?H = "le32 sampleRate" and ?I = "le32 (sampleRate * 2)" and ?J = "le16 2"
  let ?K = "le16 16" and ?L = "js ''data''" and ?M = "le32 (int n * 2)"
  have dd: "d = ?A @ ?B @ ?C @ ?D @ ?E @ ?F @ ?G @ ?H @ ?I @ ?J @ ?K @ ?L @ ?M @ S"
    by (simp add: d_def wav_header_def)
  have len: "length d = 44 + 2 * n"
    by (simp add: d_def S_def n_def length_concat_sample_bytes)
  have fA: "take 4 (drop 0 ([] @ ?A @ (?B @ ?C @ ?D @ ?E @ ?F @ ?G @ ?H @ ?I @ ?J @ ?K @ ?L @ ?M @ S))) = ?A"
    by (rule take_drop_field) simp_all
  then have A: "take 4 d = ?A" unfolding dd by simp
  have "getUint32 (?A @ ?B @ (?C @ ?D @ ?E @ ?F @ ?G @ ?H @ ?I @ ?J @ ?K @ ?L @ ?M @ S)) 4 = 36 + int n * 2"
    using assms(3) by (intro getUint32_le32) (simp_all add: n_def)
  then have B: "getUint32 d 4 = 36 + 2 * int n" unfolding dd by simp
  have "take 4 (drop 8 ((?A @ ?B) @ ?C @ (?D @ ?E @ ?F @ ?G @ ?H @ ?I @ ?J @ ?K @ ?L @ ?M @ S))) = ?C"
    by (rule take_drop_field) simp_all
  then have C: "take 4 (drop 8 d) = ?C" unfolding dd by simp
  have "take 4 (drop 12 ((?A @ ?B @ ?C) @ ?D @ (?E @ ?F @ ?G @ ?H @ ?I @ ?J @ ?K @ ?L @ ?M @ S))) = ?D"
    by (rule take_drop_field) simp_all
  then have D: "take 4 (drop 12 d) = ?D" unfolding dd by simp
  have "getUint32 ((?A @ ?B @ ?C @ ?D) @ ?E @ (?F @ ?G @ ?H @ ?I @ ?J @ ?K @ ?L @ ?M @ S)) 16 = 16"
    by (intro getUint32_le32) simp_all
  then have E: "getUint32 d 16 = 16" unfolding dd by simp
  have "getUint16 ((?A @ ?B @ ?C @ ?D @ ?E) @ ?F @ (?G @ ?H @ ?I @ ?J @ ?K @ ?L @ ?M @ S)) 20 = 1"
    by (intro getUint16_le16) simp_all
  then have F: "getUint16 d 20 = 1" unfolding dd by simp
  have "getUint16 ((?A @ ?B @ ?C @ ?D @ ?E @ ?F) @ ?G @ (?H @ ?I @ ?J @ ?K @ ?L @ ?M @ S)) 22 = 1"
    by (intro getUint16_le16) simp_all
  then have G: "getUint16 d 22 = 1" unfolding dd by simp
  have "getUint32 ((?A @ ?B @ ?C @ ?D @ ?E @ ?F @ ?G) @ ?H @ (?I @ ?J @ ?K @ ?L @ ?M @ S)) 24 = sampleRate"
    using assms(1,2) by (intro getUint32_le32) simp_all
  then have H: "getUint32 d 24 = sampleRate" unfolding dd by simp
  have "getUint32 ((?A @ ?B @ ?C @ ?D @ ?E @ ?F @ ?G @ ?H) @ ?I @ (?J @ ?K @ ?L @ ?M @ S)) 28 = sampleRate * 2"
    using assms(1,2) by (intro getUint32_le32) simp_all
  then have I: "getUint32 d 28 = sampleRate * 2" unfolding dd by simp
  have "getUint16 ((?A @ ?B @ ?C @ ?D @ ?E @ ?F @ ?G @ ?H @ ?I) @ ?J @ (?K @ ?L @ ?M @ S)) 32 = 2"
    by (intro getUint16_le16) simp_all
  then have J: "getUint16 d 32 = 2" unfolding dd by simp
  have "getUint16 ((?A @ ?B @ ?C @ ?D @ ?E @ ?F @ ?G @ ?H @ ?I @ ?J) @ ?K @ (?L @ ?M @ S)) 34 = 16"
    by (intro getUint16_le16) simp_all
  then have K: "getUint16 d 34 = 16" unfolding dd by simp
  have "take 4 (drop 36 ((?A @ ?B @ ?C @ ?D @ ?E @ ?F @ ?G @ ?H @ ?I @ ?J @ ?K) @ ?L @ (?M @ S))) = ?L"
    by (rule take_drop_field) simp_all
  then have L: "take 4 (drop 36 d) = ?L" unfolding dd by simp
  have "getUint32 ((?A @ ?B @ ?C @ ?D @ ?E @ ?F @ ?G @ ?H @ ?I @ ?J @ ?K @ ?L) @ ?M @ S) 40 = int n * 2"
    using assms(3) by (intro getUint32_le32) (simp_all add: n_def)
  then have M: "getUint32 d 40 = 2 * int n" unfolding dd by simp
  have smp: "\<forall>i<n. getInt16 d (44 + 2 * i) =
        trunc_toward_zero (let s = max (- 1) (min 1 (pcmData ! i))
                           in if s < 0 then s * 32768 else s * 32767)"
  proof (intro allI impI)
    fix i assume i: "i < n"
    let ?t = "trunc_toward_zero (scale_sample (pcmData ! i))"
    have r: "- 32768 \<le> ?t" "?t \<le> 32767"
      using trunc_toward_zero_range [of "scale_sample (pcmData ! i)"] scale_sample_range [of "pcmData ! i"]
      by simp_all
    have "S = concat (map sample_bytes (take i pcmData)) @ le16 ?t
        @ concat (map sample_bytes (drop (Suc i) pcmData))"
      unfolding S_def using i concat_sample_bytes_split [of i pcmData]
      by (simp add: n_def sample_bytes_def)
    then have "d = (wav_header n sampleRate @ concat (map sample_bytes (take i pcmData))) @ le16 ?t
        @ concat (map sample_bytes (drop (Suc i) pcmData))"
      by (simp add: d_def)
    moreover have "length (wav_header n sampleRate @ concat (map sample_bytes (take i pcmData))) = 44 + 2 * i"
      using i by (simp add: length_concat_sample_bytes n_def)
    ultimately have "getInt16 d (44 + 2 * i) = ?t"
      using getInt16_le16 [OF _ r] by metis
    then show "getInt16 d (44 + 2 * i) =
        trunc_toward_zero (let s = max (- 1) (min 1 (pcmData ! i))
                           in if s < 0 then s * 32768 else s * 32767)"
      by (simp add: scale_sample_def)
  qed
  have "pcmToWav pcmData sampleRate = Inr \<lparr>blob_data = d, blob_type = ''audio/wav''\<rparr>"
    unfolding d_def S_def n_def by (rule pcmToWav_layout)
  moreover have "blob_data \<lparr>blob_data = d, blob_type = ''audio/wav''\<rparr> = d"
    "blob_type \<lparr>blob_data = d, blob_type = ''audio/wav''\<rparr> = ''audio/wav''" by simp_all
  ultimately show ?thesis
    using len A B C D E F G H I J K L M smp
    unfolding d_def S_def n_def
    by (intro exI [of _ "\<lparr>blob_data = wav_header (length pcmData) sampleRate @ concat (map sample_bytes pcmData),
        blob_type = ''audio/wav''\<rparr>"]) simp
qed

lemma pcmToWav_example:
  "pcmToWav [1, - 1, 1 / 2] 24000 =
     Inr \<lparr>blob_data =
        [82, 73, 70, 70, 42, 0, 0, 0, 87, 65, 86, 69, 102, 109, 116, 32, 16,
         0, 0, 0, 1, 0, 1, 0, 192, 93, 0, 0, 128, 187, 0, 0, 2, 0, 16, 0,
         100, 97, 116, 97, 6, 0, 0, 0, 255, 127, 0, 128, 255, 63],
        blob_type = ''audio/wav''\<rparr>"
  unfolding pcmToWav_layout
  by (simp add: wav_header_def le32_def le16_def js_def sample_bytes_def scale_sample_def
      trunc_toward_zero_def)

theorem pcmToWav_byte_layout_witness:
  "(0 :: int) \<le> 24000 \<and> (24000 :: int) * 2 < 4294967296 \<and>
   36 + int (length [1, - 1, 1 / 2 :: real]) * 2 < 4294967296 \<and>
   pcmToWav [1, - 1, 1 / 2] 24000 =
     Inr \<lparr>blob_data =
        [82, 73, 70, 70, 42, 0, 0, 0, 87, 65, 86, 69, 102, 109, 116, 32, 16,
         0, 0, 0, 1, 0, 1, 0, 192, 93, 0, 0, 128, 187, 0, 0, 2, 0, 16, 0,
         100, 97, 116, 97, 6, 0, 0, 0, 255, 127, 0, 128, 255, 63],
        blob_type = ''audio/wav''\<rparr> \<and>
   getUint32 [82, 73, 70, 70, 42, 0, 0, 0, 87, 65, 86, 69, 102, 109, 116, 32, 16,
         0, 0, 0, 1, 0, 1, 0, 192, 93, 0, 0, 128, 187, 0, 0, 2, 0, 16, 0,
         100, 97, 116, 97, 6, 0, 0, 0, 255, 127, 0, 128, 255, 63] 24 = 24000 \<and>
   getInt16 [82, 73, 70, 70, 42, 0, 0, 0, 87, 65, 86, 69, 102, 109, 116, 32, 16,
         0, 0, 0, 1, 0, 1, 0, 192, 93, 0, 0, 128, 187, 0, 0, 2, 0, 16, 0,
         100, 97, 116, 97, 6, 0, 0, 0, 255, 127, 0, 128, 255, 63] (44 + 2 * 2) = 16383"
proof -
  let ?d = "[82, 73, 70, 70, 42, 0, 0, 0, 87, 65, 86, 69, 102, 109, 116, 32, 16,
         0, 0, 0, 1, 0, 1, 0, 192, 93, 0, 0, 128, 187, 0, 0, 2, 0, 16, 0,
         100, 97, 116, 97, 6, 0, 0, 0, 255, 127, 0, 128, 255, 63 :: nat]"
  have h1: "(0 :: int) \<le> 24000" and h2: "(24000 :: int) * 2 < 4294967296"
    and h3: "36 + int (length [1, - 1, 1 / 2 :: real]) * 2 < 4294967296"
    by simp_all
  from pcmToWav_byte_layout [OF h1 h2 h3] obtain b where
    b: "pcmToWav [1, - 1, 1 / 2] 24000 = Inr b"
    and r: "getUint32 (blob_data b) 24 = 24000"
    and s: "\<forall>i<length [1, - 1, 1 / 2 :: real]. getInt16 (blob_data b) (44 + 2 * i) =
        trunc_toward_zero (let s = max (- 1) (min 1 ([1, - 1, 1 / 2 :: real] ! i))
                           in if s < 0 then s * 32768 else s * 32767)"
    by blast
  from b have bd: "blob_data b = ?d" unfolding pcmToWav_example by auto
  have "2 < length [1, - 1, 1 / 2 :: real]" by simp
  with s have "getInt16 (blob_data b) (44 + 2 * 2) =
        trunc_toward_zero (let s = max (- 1) (min 1 ([1, - 1, 1 / 2 :: real] ! 2))
                           in if s < 0 then s * 32768 else s * 32767)"
    by blast
  then have s2: "getInt16 ?d (44 + 2 * 2) = 16383"
    unfolding bd by (simp add: trunc_toward_zero_def)
  from r have r2: "getUint32 ?d 24 = 24000" unfolding bd .
  from h1 h2 h3 pcmToWav_example r2 s2 show ?thesis by (intro conjI)
qed

section \<open>Properties of the StorageService\<close>

text \<open>
  Claim C9. While the browser lets the requests succeed, \<open>deleteItem\<close> resolves for
  every identifier; for an identifier that is not stored it leaves the stored items as
  they are; and deleting the same identifier a second time resolves again and changes
  nothing any more.
\<close>

theorem deleteItem_idempotent:
  assumes "open_ok env" and "request_ok env"
  shows "fst (deleteItem env ident s) = Inr () \<and>
    (ident \<notin> dom (objectStore s) \<longrightarrow>
       objectStore (snd (deleteItem env ident s)) = objectStore s) \<and>
    objectStore (snd (deleteItem env ident s)) = (objectStore s)(ident := None) \<and>
    deleteItem env ident (snd (deleteItem env ident s))
      = (Inr (), snd (deleteItem env ident s))"
proof -
  have d: "deleteItem env ident s = (Inr (), s\<lparr>db := True, objectStore := (objectStore s)(ident := None)\<rparr>)"
    using assms by (cases "db s") (simp_all add: deleteItem_def ensure_db_def init_def)
  have "deleteItem env ident (s\<lparr>db := True, objectStore := (objectStore s)(ident := None)\<rparr>)
      = (Inr (), s\<lparr>db := True, objectStore := (objectStore s)(ident := None)\<rparr>)"
    using assms by (simp add: deleteItem_def ensure_db_def)
  moreover have "ident \<notin> dom (objectStore s) \<longrightarrow> (objectStore s)(ident := None) = objectStore s"
    by (auto simp: fun_upd_idem_iff)
  ultimately show ?thesis unfolding d by simp
qed

theorem deleteItem_idempotent_witness:
  "open_ok idb_works \<and> request_ok idb_works \<and>
   js ''zz'' \<notin> dom (objectStore sample_store) \<and>
   fst (deleteItem idb_works (js ''zz'') sample_store) = Inr () \<and>
   objectStore (snd (deleteItem idb_works (js ''zz'') sample_store)) = objectStore sample_store \<and>
   objectStore (snd (deleteItem idb_works (js ''a1'') sample_store)) = Map.empty \<and>
   deleteItem idb_works (js ''a1'') (snd (deleteItem idb_works (js ''a1'') sample_store))
      = (Inr (), snd (deleteItem idb_works (js ''a1'') sample_store))"
proof -
  have o: "open_ok idb_works" and r: "request_ok idb_works" by (simp_all add: idb_works_def)
  have z: "js ''zz'' \<notin> dom (objectStore sample_store)" by (simp add: sample_store_def js_def)
  note a = deleteItem_idempotent [OF o r, of "js ''zz''" sample_store]
  note b = deleteItem_idempotent [OF o r, of "js ''a1''" sample_store]
  from a z have a1: "fst (deleteItem idb_works (js ''zz'') sample_store) = Inr ()"
    and a2: "objectStore (snd (deleteItem idb_works (js ''zz'') sample_store)) = objectStore sample_store"
    by blast+
  from b have "objectStore (snd (deleteItem idb_works (js ''a1'') sample_store))
      = (objectStore sample_store)(js ''a1'' := None)" by blast
  then have b1: "objectStore (snd (deleteItem idb_works (js ''a1'') sample_store)) = Map.empty"
    by (simp add: sample_store_def)
  from b have b2: "deleteItem idb_works (js ''a1'') (snd (deleteItem idb_works (js ''a1'') sample_store))
      = (Inr (), snd (deleteItem idb_works (js ''a1'') sample_store))" by blast
  from o r z a1 a2 b1 b2 show ?thesis by (intro conjI)
qed

section \<open>Properties of the AudioEngine\<close>

lemma exclusive_new: "exclusive new_engine"
  by (simp add: exclusive_def new_engine_def)

lemma initContext_eq: "initContext e = e\<lparr>audioCtx := Some running\<rparr>"
proof (cases "audioCtx e")
  case None
  then show ?thesis by (simp add: initContext_def)
next
  case (Some c)
  then show ?thesis by (cases c) (simp_all add: initContext_def)
qed

lemma exclusive_initContext: "exclusive e \<Longrightarrow> exclusive (initContext e)"
  by (simp add: exclusive_def initContext_eq)

lemma nodes_initContext [simp]: "nodes (initContext e) = nodes e"
  "currentSource (initContext e) = currentSource e"
  by (simp_all add: initContext_eq)

lemma audible_stopped [simp]: "\<not> audible (n\<lparr>stop_calls := Suc k\<rparr>)"
  by (simp add: audible_def)

lemma stop_silent:
  assumes "exclusive e" and "j < length (nodes (stop e))"
  shows "\<not> audible (nodes (stop e) ! j)"
proof (cases "currentSource e")
  case None
  with assms show ?thesis by (auto simp: exclusive_def stop_def)
next
  case (Some i)
  with assms have i: "i < length (nodes e)" by (simp add: exclusive_def)
  show ?thesis
  proof (cases "j = i")
    case True
    with Some i show ?thesis by (simp add: stop_def)
  next
    case False
    with Some assms show ?thesis by (auto simp: stop_def exclusive_def)
  qed
qed

lemma exclusive_stop: "exclusive e \<Longrightarrow> exclusive (stop e)"
  using stop_silent [of e] by (auto simp: exclusive_def stop_def split: option.splits)

lemma exclusive_start_source:
  assumes "\<forall>j < length (nodes e). \<not> audible (nodes e ! j)"
  shows "exclusive (start_source buffer rate now e)"
  using assms by (auto simp: exclusive_def start_source_def nth_append)

lemma exclusive_playBuffer: "exclusive e \<Longrightarrow> exclusive (playBuffer buffer rate now e)"
  unfolding playBuffer_def
  by (intro exclusive_start_source allI impI stop_silent exclusive_initContext)

lemma exclusive_pause: "exclusive e \<Longrightarrow> exclusive (pause e)"
  by (simp add: exclusive_def pause_def)

lemma exclusive_resume: "exclusive e \<Longrightarrow> exclusive (resume e)"
  by (simp add: exclusive_def resume_def)

lemma exclusive_setPlaybackRate: "exclusive e \<Longrightarrow> exclusive (setPlaybackRate r e)"
  by (auto simp: exclusive_def setPlaybackRate_def audible_def nth_list_update split: option.splits)

lemma exclusive_source_ended: "exclusive e \<Longrightarrow> exclusive (source_ended i e)"
  by (auto simp: exclusive_def source_ended_def audible_def nth_list_update)

lemma exclusive_decodeToBuffer: "exclusive e \<Longrightarrow> exclusive (snd (decodeToBuffer pcmData e))"
  using exclusive_initContext [of e] by (simp add: decodeToBuffer_def Let_def)

lemma reachable_exclusive: "reachable e \<Longrightarrow> exclusive e"
  by (induction rule: reachable.induct)
    (simp_all add: exclusive_new exclusive_playBuffer exclusive_stop exclusive_pause
      exclusive_resume exclusive_setPlaybackRate exclusive_source_ended exclusive_decodeToBuffer)

lemma filter_at_most_one:
  "(\<forall>i<length xs. \<forall>j<length xs. P (xs ! i) \<longrightarrow> P (xs ! j) \<longrightarrow> i = j) \<Longrightarrow> length (filter P xs) \<le> 1"
proof (induction xs)
  case Nil
  show ?case by simp
next
  case (Cons x xs)
  show ?case
  proof (cases "P x")
    case True
    have "\<not> P y" if "y \<in> set xs" for y
    proof
      assume "P y"
      from that obtain j where j: "j < length xs" "xs ! j = y" by (auto simp: in_set_conv_nth)
      from Cons.prems [rule_format, of 0 "Suc j"] True \<open>P y\<close> j show False by simp
    qed
    then have "filter P xs = []" by (simp add: filter_empty_conv)
    with True show ?thesis by simp
  next
    case False
    have "\<forall>i<length xs. \<forall>j<length xs. P (xs ! i) \<longrightarrow> P (xs ! j) \<longrightarrow> i = j"
    proof (intro allI impI)
      fix i j assume "i < length xs" "j < length xs" "P (xs ! i)" "P (xs ! j)"
      with Cons.prems [rule_format, of "Suc i" "Suc j"] show "i = j" by simp
    qed
    from Cons.IH [OF this] False show ?thesis by simp
  qed
qed

lemma exclusive_audible_count: "exclusive e \<Longrightarrow> audible_count e \<le> 1"
proof -
  assume x: "exclusive e"
  have "\<forall>i<length (nodes e). \<forall>j<length (nodes e).
      audible (nodes e ! i) \<longrightarrow> audible (nodes e ! j) \<longrightarrow> i = j"
  proof (intro allI impI)
    fix i j
    assume "i < length (nodes e)" "j < length (nodes e)"
      "audible (nodes e ! i)" "audible (nodes e ! j)"
    with x have "currentSource e = Some i" "currentSource e = Some j"
      unfolding exclusive_def by blast+
    then show "i = j" by simp
  qed
  then show ?thesis unfolding audible_count_def by (rule filter_at_most_one)
qed

lemma reachable_audible_count: "reachable e \<Longrightarrow> audible_count e \<le> 1"
  by (intro exclusive_audible_count reachable_exclusive)

lemma silent_audible_count:
  "(\<forall>j < length (nodes e). \<not> audible (nodes e ! j)) \<Longrightarrow> audible_count e = 0"
  by (auto simp: audible_count_def filter_empty_conv in_set_conv_nth)

lemma start_source_audible_count:
  "(\<forall>j < length (nodes e). \<not> audible (nodes e ! j)) \<Longrightarrow>
   audible_count (start_source buffer rate now e) = 1"
  by (auto simp: audible_count_def start_source_def audible_def filter_empty_conv in_set_conv_nth)

lemma reachable_initContext: "reachable e \<Longrightarrow> reachable (initContext e)"
proof -
  assume r: "reachable e"
  have "snd (decodeToBuffer [0] e) = initContext e"
    by (simp add: decodeToBuffer_def Let_def)
  with reachable.decoded [OF r, of "[0]"] show ?thesis by simp
qed

text \<open>
  Claim C4. In every state the engine can reach with a source loaded (playing, paused
  or played to its end), \<open>playBuffer\<close>
  first gives the loaded source exactly one more \<^verbatim>\<open>stop()\<close>, after which no node
  sounds and no source is current; only then is the new node created, with the given
  buffer and rate, started and made the current source. Every other node is left as it
  was; at most one node sounds before, none in between and exactly one afterwards; the
  engine still owns its sources exclusively; and the context runs, the flag
  \<open>isActuallyPlaying\<close> is set and the controller is Playing.
\<close>

theorem playBuffer_replaces_source:
  assumes "reachable e" and "currentSource e = Some i"
  shows "audible_count e \<le> 1 \<and>
    stop_calls (nodes (stop (initContext e)) ! i) = stop_calls (nodes e ! i) + 1 \<and>
    audible_count (stop (initContext e)) = 0 \<and>
    currentSource (stop (initContext e)) = None \<and>
    playBuffer buffer rate now e = start_source buffer rate now (stop (initContext e)) \<and>
    stop_calls (nodes (playBuffer buffer rate now e) ! i) = stop_calls (nodes e ! i) + 1 \<and>
    (\<forall>j < length (nodes e). j \<noteq> i \<longrightarrow> nodes (playBuffer buffer rate now e) ! j = nodes e ! j) \<and>
    length (nodes (playBuffer buffer rate now e)) = length (nodes e) + 1 \<and>
    currentSource (playBuffer buffer rate now e) = Some (length (nodes e)) \<and>
    nodes (playBuffer buffer rate now e) ! length (nodes e) =
      \<lparr>node_buffer = buffer, playbackRate = rate, started = True, stop_calls = 0, finished = False\<rparr> \<and>
    audible_count (playBuffer buffer rate now e) = 1 \<and>
    exclusive (playBuffer buffer rate now e) \<and>
    isActuallyPlaying (playBuffer buffer rate now e) \<and>
    audioCtx (playBuffer buffer rate now e) = Some running \<and>
    controller (playBuffer buffer rate now e) = Playing"
proof -
  let ?t = "stop (initContext e)"
  let ?e' = "playBuffer buffer rate now e"
  from assms(1) have x: "exclusive e" by (rule reachable_exclusive)
  with assms(2) have i: "i < length (nodes e)" by (simp add: exclusive_def)
  have t: "?t = (initContext e)\<lparr>nodes := (nodes e)[i := (nodes e ! i)\<lparr>stop_calls := stop_calls (nodes e ! i) + 1\<rparr>],
            currentSource := None, isActuallyPlaying := False\<rparr>"
    using assms(2) by (simp add: stop_def)
  have len: "length (nodes ?t) = length (nodes e)" by (simp add: t)
  have silent: "\<forall>j < length (nodes ?t). \<not> audible (nodes ?t ! j)"
    using stop_silent [OF exclusive_initContext [OF x]] by blast
  have c0: "audible_count e \<le> 1" using x by (rule exclusive_audible_count)
  have c1: "stop_calls (nodes ?t ! i) = stop_calls (nodes e ! i) + 1"
    using i by (simp add: t)
  have c2: "audible_count ?t = 0" using silent by (rule silent_audible_count)
  have c3: "currentSource ?t = None" by (simp add: t)
  have c4: "?e' = start_source buffer rate now ?t" by (simp add: playBuffer_def)
  have nodes': "nodes ?e' = nodes ?t @ [\<lparr>node_buffer = buffer, playbackRate = rate, started = True,
      stop_calls = 0, finished = False\<rparr>]"
    by (simp add: c4 start_source_def)
  have c5: "stop_calls (nodes ?e' ! i) = stop_calls (nodes e ! i) + 1"
    using i c1 by (simp add: nodes' nth_append len)
  have c6: "\<forall>j < length (nodes e). j \<noteq> i \<longrightarrow> nodes ?e' ! j = nodes e ! j"
  proof (intro allI impI)
    fix j assume j: "j < length (nodes e)" "j \<noteq> i"
    then have "nodes ?e' ! j = nodes ?t ! j" by (simp add: nodes' nth_append len)
    also have "\<dots> = nodes e ! j" using j by (simp add: t)
    finally show "nodes ?e' ! j = nodes e ! j" .
  qed
  have c7: "length (nodes ?e') = length (nodes e) + 1" by (simp add: nodes' len)
  have c8: "currentSource ?e' = Some (length (nodes e))"
    by (simp add: c4 start_source_def len)
  have c9: "nodes ?e' ! length (nodes e) = \<lparr>node_buffer = buffer, playbackRate = rate, started = True,
      stop_calls = 0, finished = False\<rparr>"
    using len by (simp add: nodes' nth_append)
  have c10: "audible_count ?e' = 1"
    unfolding c4 using silent by (rule start_source_audible_count)
  have c11: "exclusive ?e'" using x by (rule exclusive_playBuffer)
  have at: "audioCtx ?t = Some running" unfolding t by (simp add: initContext_eq)
  have c13: "isActuallyPlaying ?e'" and c14: "audioCtx ?e' = Some running"
    by (simp_all add: c4 start_source_def at)
  then have c12: "controller ?e' = Playing"
    using c8 c9 by (simp add: controller_def audible_def)
  from c0 c1 c2 c3 c4 c5 c6 c7 c8 c9 c10 c11 c13 c14 c12 show ?thesis by (intro conjI)
qed

lemmas engine_eval = playing_engine_def playBuffer_def start_source_def stop_def initContext_eq
  new_engine_def first_buffer_def second_buffer_def

theorem playBuffer_replaces_source_witness:
  "reachable playing_engine \<and> currentSource playing_engine = Some 0 \<and>
   controller playing_engine = Playing \<and>
   stop_calls (nodes playing_engine ! 0) = 0 \<and>
   stop_calls (nodes (playBuffer second_buffer (3 / 2) 5 playing_engine) ! 0) = 1 \<and>
   currentSource (playBuffer second_buffer (3 / 2) 5 playing_engine) = Some 1 \<and>
   nodes (playBuffer second_buffer (3 / 2) 5 playing_engine) ! 1 =
      \<lparr>node_buffer = second_buffer, playbackRate = 3 / 2, started = True, stop_calls = 0,
       finished = False\<rparr> \<and>
   audible_count (playBuffer second_buffer (3 / 2) 5 playing_engine) = 1 \<and>
   controller (playBuffer second_buffer (3 / 2) 5 playing_engine) = Playing \<and>
   reachable (pause playing_engine) \<and> currentSource (pause playing_engine) = Some 0 \<and>
   controller (pause playing_engine) = Paused \<and>
   stop_calls (nodes (playBuffer second_buffer (3 / 2) 5 (pause playing_engine)) ! 0) = 1 \<and>
   controller (playBuffer second_buffer (3 / 2) 5 (pause playing_engine)) = Playing"
proof -
  have x: "reachable playing_engine"
    unfolding playing_engine_def by (intro reachable.play reachable.start)
  have c: "currentSource playing_engine = Some 0" by (simp add: engine_eval)
  have p: "controller playing_engine = Playing"
    by (simp add: engine_eval controller_def audible_def)
  have s: "stop_calls (nodes playing_engine ! 0) = 0" by (simp add: engine_eval)
  have l: "length (nodes playing_engine) = 1" by (simp add: engine_eval)
  let ?e' = "playBuffer second_buffer (3 / 2) 5 playing_engine"
  note t = playBuffer_replaces_source [OF x c, of second_buffer "3 / 2" 5]
  from t have "stop_calls (nodes ?e' ! 0) = stop_calls (nodes playing_engine ! 0) + 1"
    by blast
  then have t1: "stop_calls (nodes ?e' ! 0) = 1" unfolding s by simp
  from t have "currentSource ?e' = Some (length (nodes playing_engine))" by blast
  then have t2: "currentSource ?e' = Some 1" unfolding l .
  from t have "nodes ?e' ! length (nodes playing_engine) =
      \<lparr>node_buffer = second_buffer, playbackRate = 3 / 2, started = True, stop_calls = 0,
       finished = False\<rparr>" by blast
  then have t3: "nodes ?e' ! 1 =
      \<lparr>node_buffer = second_buffer, playbackRate = 3 / 2, started = True, stop_calls = 0,
       finished = False\<rparr>" unfolding l .
  from t have t4: "audible_count ?e' = 1" by blast
  from t have t5: "controller ?e' = Playing" by blast
  have x': "reachable (pause playing_engine)" using x by (rule reachable.paused)
  have c': "currentSource (pause playing_engine) = Some 0" by (simp add: engine_eval pause_def)
  have p': "controller (pause playing_engine) = Paused"
    by (simp add: engine_eval pause_def controller_def)
  have s': "stop_calls (nodes (pause playing_engine) ! 0) = 0" by (simp add: engine_eval pause_def)
  let ?f' = "playBuffer second_buffer (3 / 2) 5 (pause playing_engine)"
  note u = playBuffer_replaces_source [OF x' c', of second_buffer "3 / 2" 5]
  from u have "stop_calls (nodes ?f' ! 0) = stop_calls (nodes (pause playing_engine) ! 0) + 1"
    by blast
  then have u1: "stop_calls (nodes ?f' ! 0) = 1" unfolding s' by simp
  from u have u2: "controller ?f' = Playing" by blast
  from x c p s t1 t2 t3 t4 t5 x' c' p' u1 u2 show ?thesis by (intro conjI)
qed

section \<open>Properties of handleGenerate\<close>

subsection \<open>The loop over the remaining sentences\<close>

lemma remaining_parts_None:
  "remaining_parts env mode totalSentences i rest (chunks, len, prog) = (None, chunks', len', prog') \<Longrightarrow>
   \<exists>cs. chunks' = chunks @ cs \<and> length cs = length rest \<and>
     (\<forall>k<length rest.
        generateTTS (env_atob env) (env_generateContent env (i + k)) (rest ! k) mode = Inr (cs ! k)) \<and>
     len' = len + length (concat cs)"
proof (induction rest arbitrary: i chunks len prog)
  case Nil
  then show ?case by simp
next
  case (Cons s rest)
  show ?case
  proof (cases "generateTTS (env_atob env) (env_generateContent env i) s mode")
    case (Inl e)
    with Cons.prems show ?thesis by simp
  next
    case (Inr chunk)
    with Cons.prems have "remaining_parts env mode totalSentences (i + 1) rest
        (chunks @ [chunk], len + length chunk, Math_round (real (i + 1) / real totalSentences * 100))
        = (None, chunks', len', prog')" by simp
    from Cons.IH [OF this] obtain cs where cs: "chunks' = (chunks @ [chunk]) @ cs"
      "length cs = length rest"
      "\<forall>k<length rest. generateTTS (env_atob env) (env_generateContent env (i + 1 + k)) (rest ! k) mode
          = Inr (cs ! k)"
      "len' = len + length chunk + length (concat cs)" by blast
    have "\<forall>k<length (s # rest).
        generateTTS (env_atob env) (env_generateContent env (i + k)) ((s # rest) ! k) mode
          = Inr ((chunk # cs) ! k)"
    proof (intro allI impI)
      fix k assume k: "k < length (s # rest)"
      show "generateTTS (env_atob env) (env_generateContent env (i + k)) ((s # rest) ! k) mode
          = Inr ((chunk # cs) ! k)"
      proof (cases k)
        case 0
        with Inr show ?thesis by simp
      next
        case (Suc j)
        with k cs(3) show ?thesis by simp
      qed
    qed
    with cs show ?thesis
      by (intro exI [of _ "chunk # cs"]) simp
  qed
qed

lemma remaining_parts_fails:
  "k < length rest \<Longrightarrow>
   generateTTS (env_atob env) (env_generateContent env (i + k)) (rest ! k) mode = Inl e \<Longrightarrow>
   \<exists>e'. fst (remaining_parts env mode totalSentences i rest st) = Some e'"
proof (induction rest arbitrary: i k st)
  case Nil
  then show ?case by simp
next
  case (Cons s rest)
  obtain chunks len prog where st: "st = (chunks, len, prog)" by (cases st) auto
  show ?case
  proof (cases "generateTTS (env_atob env) (env_generateContent env i) s mode")
    case (Inl e0)
    then show ?thesis by (simp add: st)
  next
    case (Inr chunk)
    with Cons.prems obtain j where j: "k = Suc j" by (cases k) auto
    with Cons.prems have "j < length rest"
      "generateTTS (env_atob env) (env_generateContent env (i + 1 + j)) (rest ! j) mode = Inl e"
      by simp_all
    from Cons.IH [OF this] Inr show ?thesis by (simp add: st)
  qed
qed

subsection \<open>Merging the chunks\<close>

lemma merge_chunks_concat:
  "offset + length (concat cs) \<le> length f \<Longrightarrow>
   merge_chunks f offset cs
     = Inr (take offset f @ concat cs @ drop (offset + length (concat cs)) f)"
proof (induction cs arbitrary: f offset)
  case Nil
  then show ?case by simp
next
  case (Cons c cs)
  let ?f1 = "take offset f @ c @ drop (offset + length c) f"
  from Cons.prems have le: "offset + length c \<le> length f" by simp
  then have set: "typed_array_set f c offset = Inr ?f1"
    by (simp add: typed_array_set_def)
  have len1: "length ?f1 = length f" using le by simp
  have "offset + length c + length (concat cs) \<le> length ?f1"
    using Cons.prems unfolding len1 by simp
  from Cons.IH [OF this]
  have "merge_chunks ?f1 (offset + length c) cs
      = Inr (take (offset + length c) ?f1 @ concat cs
             @ drop (offset + length c + length (concat cs)) ?f1)" .
  moreover have "take (offset + length c) ?f1 = take offset f @ c"
    using le by simp
  moreover have "drop (offset + length c + length (concat cs)) ?f1
      = drop (offset + length c + length (concat cs)) f"
    using le by (simp add: add.commute add.left_commute)
  ultimately show ?case using set by (simp add: add.assoc)
qed

lemma merge_chunks_fresh:
  "merge_chunks (replicate (length (concat cs)) 0) 0 cs = Inr (concat cs)"
  using merge_chunks_concat [of 0 cs "replicate (length (concat cs)) 0"] by simp

lemma concat_slice:
  assumes "i < length cs"
  shows "take (length (cs ! i)) (drop (length (concat (take i cs))) (concat cs)) = cs ! i"
proof -
  have "cs = take i cs @ cs ! i # drop (Suc i) cs"
    using assms by (rule id_take_nth_drop)
  then have "concat cs = concat (take i cs) @ cs ! i @ concat (drop (Suc i) cs)"
    by (metis concat.simps(2) concat_append)
  then show ?thesis by simp
qed

subsection \<open>Merge, encode and save\<close>

lemma saveItem_Inr:
  "saveItem env item s = (Inr u, s') \<Longrightarrow> objectStore s' = (objectStore s)(item_id item \<mapsto> item)"
  by (auto simp: saveItem_def ensure_db_def init_def split: if_splits)

lemma saveItem_Inl:
  "saveItem env item s = (Inl e, s') \<Longrightarrow> objectStore s' = objectStore s"
  by (auto simp: saveItem_def ensure_db_def init_def split: if_splits)

lemma merge_and_save_Inr:
  assumes "merge_and_save env a chunks len w = (Inr finalPCM, w')"
  shows "merge_chunks (replicate len 0) 0 chunks = Inr finalPCM \<and>
    (\<exists>mp3Blob. pcmToMp3 (env_lamejs env) finalPCM 24000 = Inr mp3Blob \<and>
       objectStore (storage w')
         = (objectStore (storage w))(env_randomUUID env \<mapsto> new_item env a finalPCM mp3Blob) \<and>
       library (app w') = new_item env a finalPCM mp3Blob # library a)"
proof (cases "merge_chunks (replicate len 0) 0 chunks")
  case (Inl e)
  with assms show ?thesis by (simp add: merge_and_save_def)
next
  case (Inr f)
  note m = Inr
  show ?thesis
  proof (cases "pcmToMp3 (env_lamejs env) f 24000")
    case (Inl e)
    with assms m show ?thesis by (simp add: merge_and_save_def)
  next
    case (Inr mp3Blob)
    note p = Inr
    obtain r st where s: "saveItem (env_idb env) (new_item env a f mp3Blob) (storage w) = (r, st)"
      by (cases "saveItem (env_idb env) (new_item env a f mp3Blob) (storage w)") auto
    show ?thesis
    proof (cases r)
      case (Inl e)
      with assms m p s show ?thesis by (simp add: merge_and_save_def)
    next
      case (Inr u)
      with assms m p s have f: "f = finalPCM"
        and w': "w' = w\<lparr>storage := st,
             app := (app w)\<lparr>library := new_item env a f mp3Blob # library a, progress := 100\<rparr>\<rparr>"
        by (auto simp: merge_and_save_def)
      from s Inr have "objectStore st
          = (objectStore (storage w))(item_id (new_item env a f mp3Blob) \<mapsto> new_item env a f mp3Blob)"
        by (intro saveItem_Inr) simp
      then have "objectStore st
          = (objectStore (storage w))(env_randomUUID env \<mapsto> new_item env a f mp3Blob)"
        by (simp add: new_item_def)
      with m p show ?thesis unfolding f [symmetric] w' by simp
    qed
  qed
qed

lemma merge_and_save_Inl:
  assumes "merge_and_save env a chunks len w = (Inl e, w')"
  shows "objectStore (storage w') = objectStore (storage w) \<and> app w' = app w
    \<and> audioEngine w' = audioEngine w"
proof (cases "merge_chunks (replicate len 0) 0 chunks")
  case (Inl e)
  with assms show ?thesis by (simp add: merge_and_save_def)
next
  case (Inr f)
  note m = Inr
  show ?thesis
  proof (cases "pcmToMp3 (env_lamejs env) f 24000")
    case (Inl e)
    with assms m show ?thesis by (simp add: merge_and_save_def)
  next
    case (Inr mp3Blob)
    note p = Inr
    obtain r st where s: "saveItem (env_idb env) (new_item env a f mp3Blob) (storage w) = (r, st)"
      by (cases "saveItem (env_idb env) (new_item env a f mp3Blob) (storage w)") auto
    show ?thesis
    proof (cases r)
      case (Inl e0)
      with assms m p s have "w' = w\<lparr>storage := st\<rparr>" by (simp add: merge_and_save_def)
      moreover from s Inl have "objectStore st = objectStore (storage w)"
        by (intro saveItem_Inl) simp
      ultimately show ?thesis by simp
    next
      case (Inr u)
      with assms m p s show ?thesis by (simp add: merge_and_save_def)
    qed
  qed
qed

subsection \<open>The try block\<close>

lemma handleGenerate_try_Inr:
  assumes "handleGenerate_try env w = (Inr finalPCM, w')"
  shows "\<exists>chunks mp3Blob.
    length chunks = length (splitIntoSentences (app_text (app w))) \<and>
    (\<forall>i<length chunks.
       generateTTS (env_atob env) (env_generateContent env i)
         (splitIntoSentences (app_text (app w)) ! i) (app_mode (app w)) = Inr (chunks ! i)) \<and>
    finalPCM = concat chunks \<and>
    pcmToMp3 (env_lamejs env) finalPCM 24000 = Inr mp3Blob \<and>
    objectStore (storage w')
      = (objectStore (storage w))(env_randomUUID env \<mapsto> new_item env (app w) finalPCM mp3Blob) \<and>
    library (app w') = new_item env (app w) finalPCM mp3Blob # library (app w)"
proof -
  let ?a = "app w"
  let ?S = "splitIntoSentences (app_text ?a)"
  let ?mode = "app_mode ?a"
  let ?gen = "\<lambda>i s. generateTTS (env_atob env) (env_generateContent env i) s ?mode"
  obtain c0 where f: "first_sentence env ?mode ?S = Inr c0"
    using assms by (cases "first_sentence env ?mode ?S") (simp_all add: handleGenerate_try_def Let_def)
  then obtain s0 ss where S: "?S = s0 # ss" and g0: "?gen 0 s0 = Inr c0"
    by (cases ?S) (simp_all add: first_sentence_def)
  obtain r eng where d: "decodeToBuffer c0 (audioEngine w) = (r, eng)"
    by (cases "decodeToBuffer c0 (audioEngine w)") auto
  obtain buffer where r: "r = Inr buffer"
    using assms f d by (cases r) (simp_all add: handleGenerate_try_def Let_def)
  let ?p0 = "Math_round (100 / real (length ?S))"
  obtain err chunks len prog where
    rp: "remaining_parts env ?mode (length ?S) 1 (tl ?S) ([c0], length c0, ?p0) = (err, chunks, len, prog)"
    by (cases "remaining_parts env ?mode (length ?S) 1 (tl ?S) ([c0], length c0, ?p0)") auto
  have err: "err = None"
    using assms f d r rp by (cases err) (simp_all add: handleGenerate_try_def Let_def)
  let ?shown = "(audioState ?a)\<lparr>isPlaying := True, isPaused := False,
                         state_duration := buffer_duration buffer,
                         currentTitle := app_title ?a,
                         currentVoice := voice_of ?mode\<rparr>"
  let ?W = "w\<lparr>app := ?a\<lparr>audioState := ?shown, progress := prog\<rparr>,
      audioEngine := playBuffer buffer (state_playbackRate (audioState ?a)) (env_currentTime env) eng\<rparr>"
  have ms: "merge_and_save env ?a chunks len ?W = (Inr finalPCM, w')"
    using assms f d r rp err by (simp add: handleGenerate_try_def Let_def)
  from rp [unfolded err S] remaining_parts_None [of env ?mode "length ?S" 1 ss "[c0]" "length c0" ?p0 chunks len prog]
  obtain cs where cs: "chunks = [c0] @ cs" "length cs = length ss"
    "\<forall>k<length ss. ?gen (1 + k) (ss ! k) = Inr (cs ! k)"
    "len = length c0 + length (concat cs)"
    unfolding S by auto
  have len: "len = length (concat chunks)" using cs by simp
  from merge_and_save_Inr [OF ms] obtain mp3Blob where
    m: "merge_chunks (replicate len 0) 0 chunks = Inr finalPCM"
    and p: "pcmToMp3 (env_lamejs env) finalPCM 24000 = Inr mp3Blob"
    and o: "objectStore (storage w') = (objectStore (storage ?W))(env_randomUUID env \<mapsto> new_item env ?a finalPCM mp3Blob)"
    and l: "library (app w') = new_item env ?a finalPCM mp3Blob # library ?a"
    by blast
  from m have fin: "finalPCM = concat chunks"
    unfolding len merge_chunks_fresh by simp
  have n: "length chunks = length ?S" using cs S by simp
  have all: "\<forall>i<length chunks. ?gen i (?S ! i) = Inr (chunks ! i)"
  proof (intro allI impI)
    fix i assume i: "i < length chunks"
    show "?gen i (?S ! i) = Inr (chunks ! i)"
    proof (cases i)
      case 0
      with g0 cs S show ?thesis by simp
    next
      case (Suc k)
      with i cs have "k < length ss" by simp
      with cs(3) have "?gen (1 + k) (ss ! k) = Inr (cs ! k)" by blast
      with Suc cs S show ?thesis by simp
    qed
  qed
  from o have o': "objectStore (storage w')
      = (objectStore (storage w))(env_randomUUID env \<mapsto> new_item env ?a finalPCM mp3Blob)"
    by simp
  from n all fin p o' l show ?thesis by blast
qed

lemma handleGenerate_try_Inl:
  assumes "handleGenerate_try env w = (Inl e, w')"
  shows "objectStore (storage w') = objectStore (storage w) \<and> library (app w') = library (app w)"
proof -
  let ?a = "app w"
  let ?S = "splitIntoSentences (app_text ?a)"
  let ?mode = "app_mode ?a"
  show ?thesis
  proof (cases "first_sentence env ?mode ?S")
    case (Inl e0)
    with assms show ?thesis by (auto simp: handleGenerate_try_def Let_def)
  next
    case (Inr c0)
    note f = Inr
    obtain r eng where d: "decodeToBuffer c0 (audioEngine w) = (r, eng)"
      by (cases "decodeToBuffer c0 (audioEngine w)") auto
    show ?thesis
    proof (cases r)
      case (Inl e1)
      with assms f d show ?thesis by (auto simp: handleGenerate_try_def Let_def)
    next
      case (Inr buffer)
      note r = Inr
      let ?p0 = "Math_round (100 / real (length ?S))"
      obtain err chunks len prog where
        rp: "remaining_parts env ?mode (length ?S) 1 (tl ?S) ([c0], length c0, ?p0) = (err, chunks, len, prog)"
        by (cases "remaining_parts env ?mode (length ?S) 1 (tl ?S) ([c0], length c0, ?p0)") auto
      show ?thesis
      proof (cases err)
        case (Some e2)
        with assms f d r rp show ?thesis by (auto simp: handleGenerate_try_def Let_def)
      next
        case None
        let ?shown = "(audioState ?a)\<lparr>isPlaying := True, isPaused := False,
                         state_duration := buffer_duration buffer,
                         currentTitle := app_title ?a,
                         currentVoice := voice_of ?mode\<rparr>"
        let ?W = "w\<lparr>app := ?a\<lparr>audioState := ?shown, progress := prog\<rparr>,
          audioEngine := playBuffer buffer (state_playbackRate (audioState ?a)) (env_currentTime env) eng\<rparr>"
        have "merge_and_save env ?a chunks len ?W = (Inl e, w')"
          using assms f d r rp None by (simp add: handleGenerate_try_def Let_def)
        from merge_and_save_Inl [OF this] show ?thesis by simp
      qed
    qed
  qed
qed

lemma handleGenerate_try_failing_call:
  assumes "i < length (splitIntoSentences (app_text (app w)))"
    and "generateTTS (env_atob env) (env_generateContent env i)
           (splitIntoSentences (app_text (app w)) ! i) (app_mode (app w)) = Inl e"
  shows "\<exists>e' w'. handleGenerate_try env w = (Inl e', w') \<and> storage w' = storage w \<and>
    library (app w') = library (app w)"
proof -
  let ?a = "app w"
  let ?S = "splitIntoSentences (app_text ?a)"
  let ?mode = "app_mode ?a"
  from assms(1) obtain s0 ss where S: "?S = s0 # ss" by (cases ?S) auto
  show ?thesis
  proof (cases "first_sentence env ?mode ?S")
    case (Inl e0)
    then show ?thesis by (simp add: handleGenerate_try_def Let_def)
  next
    case (Inr c0)
    note f = Inr
    then have g0: "generateTTS (env_atob env) (env_generateContent env 0) s0 ?mode = Inr c0"
      by (simp add: first_sentence_def S)
    with assms(2) S obtain k where k: "i = Suc k" by (cases i) auto
    obtain r eng where d: "decodeToBuffer c0 (audioEngine w) = (r, eng)"
      by (cases "decodeToBuffer c0 (audioEngine w)") auto
    show ?thesis
    proof (cases r)
      case (Inl e1)
      with f d show ?thesis by (simp add: handleGenerate_try_def Let_def)
    next
      case (Inr buffer)
      note r = Inr
      let ?p0 = "Math_round (100 / real (length ?S))"
      obtain err chunks len prog where
        rp: "remaining_parts env ?mode (length ?S) 1 (tl ?S) ([c0], length c0, ?p0) = (err, chunks, len, prog)"
        by (cases "remaining_parts env ?mode (length ?S) 1 (tl ?S) ([c0], length c0, ?p0)") auto
      from assms k S have "k < length ss"
        "generateTTS (env_atob env) (env_generateContent env (1 + k)) (ss ! k) ?mode = Inl e"
        by simp_all
      from remaining_parts_fails [OF this, of "length ?S" "([c0], length c0, ?p0)"] rp S
      obtain e2 where "err = Some e2" by auto
      with f d r rp show ?thesis by (simp add: handleGenerate_try_def Let_def)
    qed
  qed
qed

text \<open>
  Claim C6. Whenever the \<^verbatim>\<open>try\<close> block of \<open>handleGenerate\<close> completes, its final
  sample buffer is the concatenation, in sentence order, of the buffers that the calls of
  \<open>generateTTS\<close> returned, one call for each sentence unit and the \<open>i\<close>-th call for
  the \<open>i\<close>-th unit: its length is the sum of their lengths, the buffer of unit \<open>i\<close>
  lies in it directly behind the buffers of the units before, and the item put at the
  head of the library has the duration of the whole of it.
\<close>

theorem handleGenerate_final_buffer:
  assumes "handleGenerate_try env w = (Inr finalPCM, w')"
  shows "\<exists>chunks.
    length chunks = length (splitIntoSentences (app_text (app w))) \<and>
    (\<forall>i<length chunks.
       generateTTS (env_atob env) (env_generateContent env i)
         (splitIntoSentences (app_text (app w)) ! i) (app_mode (app w)) = Inr (chunks ! i)) \<and>
    finalPCM = concat chunks \<and>
    length finalPCM = sum_list (map length chunks) \<and>
    (\<forall>i<length chunks.
       take (length (chunks ! i)) (drop (sum_list (map length (take i chunks))) finalPCM)
         = chunks ! i) \<and>
    (\<exists>item. library (app w') = item # library (app w) \<and>
       duration item = real (length finalPCM) / 24000)"
proof -
  from handleGenerate_try_Inr [OF assms] obtain chunks mp3Blob where
    n: "length chunks = length (splitIntoSentences (app_text (app w)))"
    and g: "\<forall>i<length chunks.
       generateTTS (env_atob env) (env_generateContent env i)
         (splitIntoSentences (app_text (app w)) ! i) (app_mode (app w)) = Inr (chunks ! i)"
    and f: "finalPCM = concat chunks"
    and l: "library (app w') = new_item env (app w) finalPCM mp3Blob # library (app w)"
    by blast
  have len: "length finalPCM = sum_list (map length chunks)"
    unfolding f by (simp add: length_concat)
  have slice: "\<forall>i<length chunks.
       take (length (chunks ! i)) (drop (sum_list (map length (take i chunks))) finalPCM)
         = chunks ! i"
    unfolding f using concat_slice [of _ chunks] by (simp add: length_concat)
  have "duration (new_item env (app w) finalPCM mp3Blob) = real (length finalPCM) / 24000"
    by (simp add: new_item_def)
  with l have "\<exists>item. library (app w') = item # library (app w) \<and>
       duration item = real (length finalPCM) / 24000" by blast
  with n g f len slice show ?thesis by blast
qed

text \<open>
  Claim C8. If any of the calls of \<open>generateTTS\<close> that a run of \<open>handleGenerate\<close>
  would make throws, whatever it throws, the run leaves the storage service and the
  library list exactly as they were and reports an error. And if a run changes the
  stored items or the library list at all, then every sentence unit has been generated,
  the encoding of the whole buffer has returned a blob, and the change is that one new
  item, holding that blob, stored under its identifier and put at the head of the list.
\<close>

theorem handleGenerate_no_partial_save:
  "(i < length (splitIntoSentences (app_text (app w))) \<and>
    generateTTS (env_atob env) (env_generateContent env i)
      (splitIntoSentences (app_text (app w)) ! i) (app_mode (app w)) = Inl e \<longrightarrow>
      storage (handleGenerate env w) = storage w \<and>
      library (app (handleGenerate env w)) = library (app w) \<and>
      app_error (app (handleGenerate env w)) \<noteq> None) \<and>
   (objectStore (storage (handleGenerate env w)) \<noteq> objectStore (storage w) \<or>
    library (app (handleGenerate env w)) \<noteq> library (app w) \<longrightarrow>
      (\<exists>chunks mp3Blob.
         length chunks = length (splitIntoSentences (app_text (app w))) \<and>
         (\<forall>j<length chunks.
            generateTTS (env_atob env) (env_generateContent env j)
              (splitIntoSentences (app_text (app w)) ! j) (app_mode (app w)) = Inr (chunks ! j)) \<and>
         pcmToMp3 (env_lamejs env) (concat chunks) 24000 = Inr mp3Blob \<and>
         objectStore (storage (handleGenerate env w))
           = (objectStore (storage w))(env_randomUUID env \<mapsto>
                new_item env (app w) (concat chunks) mp3Blob) \<and>
         library (app (handleGenerate env w))
           = new_item env (app w) (concat chunks) mp3Blob # library (app w)))"
proof -
  let ?W0 = "w\<lparr>app := (app w)\<lparr>app_error := None, isGenerating := True, progress := 5\<rparr>\<rparr>"
  have same: "app_text (app ?W0) = app_text (app w)" "app_mode (app ?W0) = app_mode (app w)"
    "storage ?W0 = storage w" "library (app ?W0) = library (app w)"
    "new_item env (app ?W0) = new_item env (app w)"
    by (simp_all add: new_item_def fun_eq_iff)
  show ?thesis
  proof (cases "trim (app_text (app w)) = []")
    case True
    then have "handleGenerate env w
        = w\<lparr>app := (app w)\<lparr>app_error := Some (js ''Please enter some text first.'')\<rparr>\<rparr>"
      by (simp add: handleGenerate_def)
    then show ?thesis by simp
  next
    case False
    obtain r w' where t: "handleGenerate_try env ?W0 = (r, w')"
      by (cases "handleGenerate_try env ?W0") auto
    show ?thesis
    proof (cases r)
      case (Inl err)
      with t False have h: "handleGenerate env w =
          w'\<lparr>app := (app w')\<lparr>
                   app_error := Some (if is_quota_error err
                                      then js ''API Quota Full. Please wait a moment.''
                                      else js ''An error occurred during generation.''),
                   isGenerating := False\<rparr>\<rparr>"
        by (simp add: handleGenerate_def)
      from t Inl handleGenerate_try_Inl [of env ?W0 err w']
      have unchanged: "objectStore (storage w') = objectStore (storage w)"
        "library (app w') = library (app w)" by (simp_all add: same)
      have first: "storage w' = storage w"
        if "i < length (splitIntoSentences (app_text (app w)))"
          "generateTTS (env_atob env) (env_generateContent env i)
            (splitIntoSentences (app_text (app w)) ! i) (app_mode (app w)) = Inl e"
      proof -
        from handleGenerate_try_failing_call [of i ?W0 env e] that
        obtain e2 w2 where "handleGenerate_try env ?W0 = (Inl e2, w2)" "storage w2 = storage ?W0"
          unfolding same by blast
        with t show ?thesis by simp
      qed
      from unchanged first show ?thesis unfolding h by simp
    next
      case (Inr finalPCM)
      with t False have h: "handleGenerate env w = w'\<lparr>app := (app w')\<lparr>isGenerating := False\<rparr>\<rparr>"
        by (simp add: handleGenerate_def)
      from t Inr handleGenerate_try_Inr [of env ?W0 finalPCM w'] obtain chunks mp3Blob where
        c: "length chunks = length (splitIntoSentences (app_text (app w)))"
        "\<forall>j<length chunks.
            generateTTS (env_atob env) (env_generateContent env j)
              (splitIntoSentences (app_text (app w)) ! j) (app_mode (app w)) = Inr (chunks ! j)"
        "finalPCM = concat chunks"
        "pcmToMp3 (env_lamejs env) finalPCM 24000 = Inr mp3Blob"
        "objectStore (storage w')
           = (objectStore (storage w))(env_randomUUID env \<mapsto> new_item env (app w) finalPCM mp3Blob)"
        "library (app w') = new_item env (app w) finalPCM mp3Blob # library (app w)"
        unfolding same by auto
      have no_fail: "\<not> (i < length (splitIntoSentences (app_text (app w))) \<and>
          generateTTS (env_atob env) (env_generateContent env i)
            (splitIntoSentences (app_text (app w)) ! i) (app_mode (app w)) = Inl e)"
        using c(1,2) by auto
      have "\<exists>chunks mp3Blob.
         length chunks = length (splitIntoSentences (app_text (app w))) \<and>
         (\<forall>j<length chunks.
            generateTTS (env_atob env) (env_generateContent env j)
              (splitIntoSentences (app_text (app w)) ! j) (app_mode (app w)) = Inr (chunks ! j)) \<and>
         pcmToMp3 (env_lamejs env) (concat chunks) 24000 = Inr mp3Blob \<and>
         objectStore (storage (handleGenerate env w))
           = (objectStore (storage w))(env_randomUUID env \<mapsto>
                new_item env (app w) (concat chunks) mp3Blob) \<and>
         library (app (handleGenerate env w))
           = new_item env (app w) (concat chunks) mp3Blob # library (app w)"
        using c unfolding h by (intro exI [of _ chunks] exI [of _ mp3Blob]) simp
      with no_fail show ?thesis by blast
    qed
  qed
qed

end
